theory Spec2Isabelle
  imports Main "HOL-Library.Sublist" "HOL-Library.AList"
begin

section \<open>Python values and strings\<close>

text \<open>
  A Python \<open>str\<close> is modelled as a \<open>string\<close> whose characters are the code points
  0 to 255. On this alphabet \<open>str.lower\<close>, \<open>str.strip\<close> and the regular expression
  class \<open>\s\<close> are exactly the functions below; text with code points above 255 is outside
  the model.
\<close>

definition lower_char :: "char \<Rightarrow> char" where
  "lower_char c =
     (let n = (of_char c :: nat) in
      if (65 \<le> n \<and> n \<le> 90) \<or> (192 \<le> n \<and> n \<le> 222 \<and> n \<noteq> 215)
      then char_of (n + 32) else c)"

definition lower :: "string \<Rightarrow> string" where
  "lower s = map lower_char s"

definition is_space :: "char \<Rightarrow> bool" where
  "is_space c =
     (let n = (of_char c :: nat) in
      (9 \<le> n \<and> n \<le> 13) \<or> (28 \<le> n \<and> n \<le> 32) \<or> n = 133 \<or> n = 160)"

definition strip :: "string \<Rightarrow> string" where
  "strip s = rev (dropWhile is_space (rev (dropWhile is_space s)))"

text \<open>\<open>needle in haystack\<close> on two strings is the contiguous-sublist test.\<close>

definition contains :: "string \<Rightarrow> string \<Rightarrow> bool" where
  "contains needle haystack = sublist needle haystack"

text \<open>
  The values \<open>json.loads\<close> produces. A float is kept as the decimal literal it was read
  from (sign, digits, power of ten) or as one of the constants \<open>NaN\<close> and
  \<open>Infinity\<close>. An object is the list of its items in insertion order, each key once.
\<close>

datatype pyfloat = Nan | Inf bool | Dec bool nat int

datatype json =
    JNull
  | JBool bool
  | JInt int
  | JFloat pyfloat
  | JStr string
  | JArr "json list"
  | JObj "(string \<times> json) list"

text \<open>
  A decimal literal reads as the float zero when it is at most half the smallest
  subnormal double, \<open>2 ^ -1075\<close> (round to nearest, ties to even).
\<close>

definition float_is_zero :: "pyfloat \<Rightarrow> bool" where
  "float_is_zero f =
     (case f of
        Nan \<Rightarrow> False
      | Inf _ \<Rightarrow> False
      | Dec _ m e \<Rightarrow> m = 0 \<or> (e < 0 \<and> int m * 2 ^ 1075 \<le> 10 ^ nat (- e)))"

text \<open>Truth value testing, as \<open>if not x\<close> applies it.\<close>

fun truthy :: "json \<Rightarrow> bool" where
  "truthy JNull = False"
| "truthy (JBool b) = b"
| "truthy (JInt i) = (i \<noteq> 0)"
| "truthy (JFloat f) = (\<not> float_is_zero f)"
| "truthy (JStr s) = (s \<noteq> [])"
| "truthy (JArr xs) = (xs \<noteq> [])"
| "truthy (JObj kvs) = (kvs \<noteq> [])"

text \<open>
  The exceptions the connector can meet. \<open>KeyboardInterrupt\<close> derives from
  \<open>BaseException\<close> only; every other one is caught by \<open>except Exception\<close>.
\<close>

datatype exn =
    KeyboardInterrupt
  | EOFError
  | TypeError
  | AttributeError
  | IndexError
  | KeyError
  | RequestException
  | JSONDecodeError

definition is_Exception :: "exn \<Rightarrow> bool" where
  "is_Exception e = (e \<noteq> KeyboardInterrupt)"

section \<open>json.loads\<close>

text \<open>
  The decoder of the standard library: \<open>scanstring\<close> in strict mode, the number pattern
  \<open>(-?(?:0|[1-9][0-9]*))(\.[0-9]+)?([eE][-+]?[0-9]+)?\<close>, the constants, objects and
  arrays, with the whitespace \<open>[ \t\n\r]*\<close> between tokens. Each scanner takes the text
  from its position on and returns the value with the text that follows it. An escape
  \<open>\uXXXX\<close> above \<open>00FF\<close> leaves the alphabet of the model and is refused here,
  where \<open>json.loads\<close> decodes it: the scanners below are the decoder on the texts
  whose escapes stay within \<open>00FF\<close>, and what is proved of a body or a model text
  that is or is not JSON is proved of those texts. The interpreter's recursion limit and
  its limit on the digits of an integer are not modelled.
\<close>

definition json_ws :: "char \<Rightarrow> bool" where
  "json_ws c = (c = CHR '' '' \<or> c = CHR 0x09 \<or> c = CHR 0x0A \<or> c = CHR 0x0D)"

definition skip_ws :: "string \<Rightarrow> string" where
  "skip_ws s = dropWhile json_ws s"

definition is_digit :: "char \<Rightarrow> bool" where
  "is_digit c = (let n = (of_char c :: nat) in 48 \<le> n \<and> n \<le> 57)"

definition digit_val :: "char \<Rightarrow> nat" where
  "digit_val c = of_char c - 48"

definition digits_val :: "string \<Rightarrow> nat" where
  "digits_val ds = foldl (\<lambda>a c. 10 * a + digit_val c) 0 ds"

definition hex_val :: "char \<Rightarrow> nat option" where
  "hex_val c =
     (let n = (of_char c :: nat) in
      if 48 \<le> n \<and> n \<le> 57 then Some (n - 48)
      else if 65 \<le> n \<and> n \<le> 70 then Some (n - 55)
      else if 97 \<le> n \<and> n \<le> 102 then Some (n - 87)
      else None)"

definition hex4 :: "char \<Rightarrow> char \<Rightarrow> char \<Rightarrow> char \<Rightarrow> nat option" where
  "hex4 a b c d =
     (case (hex_val a, hex_val b, hex_val c, hex_val d) of
        (Some w, Some x, Some y, Some z) \<Rightarrow> Some (((w * 16 + x) * 16 + y) * 16 + z)
      | _ \<Rightarrow> None)"

definition unescape :: "char \<Rightarrow> char option" where
  "unescape e =
     (if e = CHR 0x22 then Some (CHR 0x22)
      else if e = CHR 0x5C then Some (CHR 0x5C)
      else if e = CHR ''/'' then Some (CHR ''/'')
      else if e = CHR ''b'' then Some (CHR 0x08)
      else if e = CHR ''f'' then Some (CHR 0x0C)
      else if e = CHR ''n'' then Some (CHR 0x0A)
      else if e = CHR ''r'' then Some (CHR 0x0D)
      else if e = CHR ''t'' then Some (CHR 0x09)
      else None)"

definition cons_char :: "char \<Rightarrow> (string \<times> string) option \<Rightarrow> (string \<times> string) option" where
  "cons_char c r = (case r of None \<Rightarrow> None | Some (s, rest) \<Rightarrow> Some (c # s, rest))"

text \<open>\<open>scanstring\<close>, entered after the opening quote.\<close>

fun scanstring :: "string \<Rightarrow> (string \<times> string) option" where
  "scanstring [] = None"
| "scanstring (c # cs) =
     (if c = CHR 0x22 then Some ([], cs)
      else if c = CHR 0x5C then
        (case cs of
           [] \<Rightarrow> None
         | e # es \<Rightarrow>
             if e = CHR ''u'' then
               (case es of
                  h1 # h2 # h3 # h4 # rest \<Rightarrow>
                    (case hex4 h1 h2 h3 h4 of
                       None \<Rightarrow> None
                     | Some n \<Rightarrow> if n < 256 then cons_char (char_of n) (scanstring rest) else None)
                | _ \<Rightarrow> None)
             else
               (case unescape e of
                  None \<Rightarrow> None
                | Some ch \<Rightarrow> cons_char ch (scanstring es)))
      else if (of_char c :: nat) < 32 then None
      else cons_char c (scanstring cs))"

text \<open>The number pattern: a group that does not match is left out and the match ends before it.\<close>

definition match_int_part :: "string \<Rightarrow> (string \<times> string) option" where
  "match_int_part s =
     (case s of
        [] \<Rightarrow> None
      | c # cs \<Rightarrow>
          if c = CHR ''0'' then Some ([c], cs)
          else if is_digit c then Some (c # takeWhile is_digit cs, dropWhile is_digit cs)
          else None)"

definition match_frac :: "string \<Rightarrow> string \<times> string" where
  "match_frac s =
     (case s of
        c # d # ds \<Rightarrow>
          if c = CHR ''.'' \<and> is_digit d
          then (d # takeWhile is_digit ds, dropWhile is_digit ds) else ([], s)
      | _ \<Rightarrow> ([], s))"

definition match_exp :: "string \<Rightarrow> (int \<times> string) option" where
  "match_exp s =
     (case s of
        c # cs \<Rightarrow>
          if c = CHR ''e'' \<or> c = CHR ''E'' then
            (case cs of
               d # ds \<Rightarrow>
                 if is_digit d
                 then Some (int (digits_val (takeWhile is_digit cs)), dropWhile is_digit cs)
                 else if (d = CHR ''-'' \<or> d = CHR ''+'') \<and> ds \<noteq> [] \<and> is_digit (hd ds)
                 then Some ((if d = CHR ''-'' then - 1 else 1)
                              * int (digits_val (takeWhile is_digit ds)),
                            dropWhile is_digit ds)
                 else None
             | [] \<Rightarrow> None)
          else None
      | [] \<Rightarrow> None)"

definition match_number :: "string \<Rightarrow> (json \<times> string) option" where
  "match_number s =
     (let (neg, s1) = (case s of c # cs \<Rightarrow> if c = CHR ''-'' then (True, cs) else (False, s)
                                | [] \<Rightarrow> (False, s))
      in case match_int_part s1 of
           None \<Rightarrow> None
         | Some (ip, s2) \<Rightarrow>
             (let (fp, s3) = match_frac s2 in
              case match_exp s3 of
                None \<Rightarrow>
                  if fp = []
                  then Some (JInt ((if neg then - 1 else 1) * int (digits_val ip)), s3)
                  else Some (JFloat (Dec neg (digits_val (ip @ fp)) (- int (length fp))), s3)
              | Some (ex, s4) \<Rightarrow>
                  Some (JFloat (Dec neg (digits_val (ip @ fp)) (ex - int (length fp))), s4)))"

text \<open>
  What \<open>scan_once\<close> does on a character that opens neither a string, an object nor an
  array, in its order: \<open>null\<close>, \<open>true\<close>, \<open>false\<close>, a number, \<open>NaN\<close>,
  \<open>Infinity\<close>, \<open>-Infinity\<close>.
\<close>

definition scan_atom :: "string \<Rightarrow> (json \<times> string) option" where
  "scan_atom s =
     (if prefix ''null'' s then Some (JNull, drop 4 s)
      else if prefix ''true'' s then Some (JBool True, drop 4 s)
      else if prefix ''false'' s then Some (JBool False, drop 5 s)
      else if match_number s \<noteq> None then match_number s
      else if prefix ''NaN'' s then Some (JFloat Nan, drop 3 s)
      else if prefix ''Infinity'' s then Some (JFloat (Inf False), drop 8 s)
      else if prefix ''-Infinity'' s then Some (JFloat (Inf True), drop 9 s)
      else None)"

text \<open>\<open>dict(pairs)\<close>: a repeated key keeps its first position and takes the last value.\<close>

definition dict_of_pairs :: "(string \<times> json) list \<Rightarrow> (string \<times> json) list" where
  "dict_of_pairs ps = foldl (\<lambda>d (k, v). AList.update k v d) [] ps"

lemma length_skip_ws [termination_simp]: "length (skip_ws s) \<le> length s"
  by (simp add: skip_ws_def length_dropWhile_le)

lemma skip_ws_Cons_shorter: "skip_ws s = c # r \<Longrightarrow> length r < length s"
  using length_skip_ws [of s] by simp

lemma scanstring_shorter: "scanstring s = Some (k, r) \<Longrightarrow> length r < length s"
proof (induction s arbitrary: k r rule: scanstring.induct)
  case 1
  then show ?case by simp
next
  case (2 c cs)
  then show ?case
    by (fastforce simp: cons_char_def split: if_splits list.splits option.splits)
qed

text \<open>
  \<open>parse_value\<close> is \<open>scan_once\<close>; \<open>parse_members\<close> is the loop of \<open>JSONObject\<close>,
  entered after the opening quote of a key with the pairs read so far; \<open>parse_elements\<close>
  is the loop of \<open>JSONArray\<close>, entered at a value. The test that a value consumed
  input only serves the termination proof: \<open>parse_shorter\<close> shows that it always
  holds, and \<open>parse_members_unfold\<close> and \<open>parse_elements_unfold\<close> give the loops
  without it.
\<close>

function parse_value :: "string \<Rightarrow> (json \<times> string) option"
  and parse_members :: "(string \<times> json) list \<Rightarrow> string \<Rightarrow> (json \<times> string) option"
  and parse_elements :: "json list \<Rightarrow> string \<Rightarrow> (json \<times> string) option"
where
  "parse_value [] = None"
| "parse_value (c # cs) =
     (if c = CHR 0x22 then
        (case scanstring cs of None \<Rightarrow> None | Some (s, r) \<Rightarrow> Some (JStr s, r))
      else if c = CHR ''{'' then
        (case skip_ws cs of
           [] \<Rightarrow> None
         | d # ds \<Rightarrow>
             if d = CHR ''}'' then Some (JObj [], ds)
             else if d = CHR 0x22 then parse_members [] ds
             else None)
      else if c = CHR ''['' then
        (case skip_ws cs of
           [] \<Rightarrow> None
         | d # ds \<Rightarrow>
             if d = CHR '']'' then Some (JArr [], ds)
             else parse_elements [] (d # ds))
      else scan_atom (c # cs))"
| "parse_members acc s =
     (case scanstring s of
        None \<Rightarrow> None
      | Some (key, r1) \<Rightarrow>
          (case skip_ws r1 of
             [] \<Rightarrow> None
           | c # r2 \<Rightarrow>
               if c \<noteq> CHR '':'' then None
               else
                 (case parse_value (skip_ws r2) of
                    None \<Rightarrow> None
                  | Some (v, r3) \<Rightarrow>
                      if \<not> length r3 < length (skip_ws r2) then None
                      else
                        (case skip_ws r3 of
                           [] \<Rightarrow> None
                         | d # r4 \<Rightarrow>
                             if d = CHR ''}'' then
                               Some (JObj (dict_of_pairs (acc @ [(key, v)])), r4)
                             else if d = CHR '','' then
                               (case skip_ws r4 of
                                  [] \<Rightarrow> None
                                | e # r5 \<Rightarrow>
                                    if e = CHR 0x22
                                    then parse_members (acc @ [(key, v)]) r5
                                    else None)
                             else None))))"
| "parse_elements acc s =
     (case parse_value s of
        None \<Rightarrow> None
      | Some (v, r1) \<Rightarrow>
          if \<not> length r1 < length s then None
          else
            (case skip_ws r1 of
               [] \<Rightarrow> None
             | d # r2 \<Rightarrow>
                 if d = CHR '']'' then Some (JArr (acc @ [v]), r2)
                 else if d = CHR '','' then parse_elements (acc @ [v]) (skip_ws r2)
                 else None))"
  by pat_completeness auto
termination
proof (relation "measure (\<lambda>x. case x of
           Inl s \<Rightarrow> 2 * length s
         | Inr (Inl (acc, s)) \<Rightarrow> 2 * length s
         | Inr (Inr (acc, s)) \<Rightarrow> 2 * length s + 1)", goal_cases)
  case 1
  show ?case by simp
next
  case (2 c cs d ds)
  then show ?case using skip_ws_Cons_shorter [of cs d ds] by simp
next
  case (3 c cs d ds)
  then show ?case using length_skip_ws [of cs] by simp
next
  case (4 acc s x2 key r1 c r2)
  then show ?case
    using scanstring_shorter [of s key r1] skip_ws_Cons_shorter [of r1 c r2]
      length_skip_ws [of r2] by simp
next
  case (5 acc s x2 key r1 c r2 x2a v r3 d r4 e r5)
  then show ?case
    using scanstring_shorter [of s key r1] skip_ws_Cons_shorter [of r1 c r2]
      length_skip_ws [of r2] skip_ws_Cons_shorter [of r3 d r4]
      skip_ws_Cons_shorter [of r4 e r5] by simp
next
  case (6 acc s)
  show ?case by simp
next
  case (7 acc s x2 v r1 d r2)
  then show ?case
    using skip_ws_Cons_shorter [of r1 d r2] length_skip_ws [of r2] by simp
qed

lemma prefix_drop_shorter: "prefix p s \<Longrightarrow> p \<noteq> [] \<Longrightarrow> length (drop (length p) s) < length s"
  by (auto simp: prefix_def)

lemma match_int_part_shorter: "match_int_part s = Some (ip, r) \<Longrightarrow> length r < length s"
  by (auto simp: match_int_part_def less_Suc_eq_le length_dropWhile_le split: list.splits if_splits)

lemma match_frac_shorter: "match_frac s = (fp, r) \<Longrightarrow> length r \<le> length s"
  by (auto simp: match_frac_def le_SucI length_dropWhile_le split: list.splits if_splits)

lemma match_exp_shorter: "match_exp s = Some (e, r) \<Longrightarrow> length r \<le> length s"
  by (auto simp: match_exp_def le_SucI length_dropWhile_le split: list.splits if_splits)

lemma match_number_shorter: "match_number s = Some (v, r) \<Longrightarrow> length r < length s"
  unfolding match_number_def Let_def
  by (auto split: list.splits if_splits option.splits prod.splits
      dest!: match_int_part_shorter match_frac_shorter match_exp_shorter)

lemma scan_atom_shorter: "scan_atom s = Some (v, r) \<Longrightarrow> length r < length s"
  unfolding scan_atom_def
  using prefix_drop_shorter [of "''null''" s] prefix_drop_shorter [of "''true''" s]
    prefix_drop_shorter [of "''false''" s] prefix_drop_shorter [of "''NaN''" s]
    prefix_drop_shorter [of "''Infinity''" s] prefix_drop_shorter [of "''-Infinity''" s]
    match_number_shorter [of s v r]
  by (auto split: if_splits)


declare parse_members.simps [simp del] parse_elements.simps [simp del]

lemma parse_shorter:
  "parse_value s = Some (v, r) \<longrightarrow> length r < length s"
  "parse_members acc s = Some (v, r) \<longrightarrow> length r < length s"
  "parse_elements acc2 s2 = Some (v, r) \<longrightarrow> length r < length s2"
proof (induction s and acc s and acc2 s2 arbitrary: v r and v r and v r
    rule: parse_value_parse_members_parse_elements.induct)
  case 1
  show ?case by simp
next
  case (2 c cs)
  show ?case
  proof
    assume a: "parse_value (c # cs) = Some (v, r)"
    consider (str) "c = CHR 0x22" | (obj) "c \<noteq> CHR 0x22" "c = CHR ''{''"
      | (arr) "c \<noteq> CHR 0x22" "c \<noteq> CHR ''{''" "c = CHR ''[''"
      | (atom) "c \<noteq> CHR 0x22" "c \<noteq> CHR ''{''" "c \<noteq> CHR ''[''"
      by blast
    then show "length r < length (c # cs)"
    proof cases
      case str
      with a show ?thesis
        by (auto split: option.splits dest!: scanstring_shorter)
    next
      case obj
      with a obtain d ds where sk: "skip_ws cs = d # ds"
        by (auto split: list.splits)
      show ?thesis
      proof (cases "d = CHR ''}''")
        case True
        with a obj sk show ?thesis
          using skip_ws_Cons_shorter [OF sk] by auto
      next
        case False
        with a obj sk have q: "d = CHR 0x22" and pm: "parse_members [] ds = Some (v, r)"
          by (auto split: if_splits)
        from "2.IH"(1) [OF obj sk False q] pm have "length r < length ds" by simp
        then show ?thesis using skip_ws_Cons_shorter [OF sk] by simp
      qed
    next
      case arr
      with a obtain d ds where sk: "skip_ws cs = d # ds"
        by (auto split: list.splits)
      show ?thesis
      proof (cases "d = CHR '']''")
        case True
        with a arr sk show ?thesis
          using skip_ws_Cons_shorter [OF sk] by auto
      next
        case False
        with a arr sk have pe: "parse_elements [] (d # ds) = Some (v, r)"
          by auto
        from "2.IH"(2) [OF arr sk False] pe have "length r < length (d # ds)" by simp
        then show ?thesis using length_skip_ws [of cs] sk by simp
      qed
    next
      case atom
      with a have "scan_atom (c # cs) = Some (v, r)" by simp
      then show ?thesis by (rule scan_atom_shorter)
    qed
  qed
next
  case (3 acc s)
  show ?case
  proof
    assume a: "parse_members acc s = Some (v, r)"
    from a obtain key r1 where ss: "scanstring s = Some (key, r1)"
      by (subst (asm) parse_members.simps) (auto split: option.splits)
    from a ss obtain c r2 where sk1: "skip_ws r1 = c # r2"
      by (subst (asm) parse_members.simps) (auto split: list.splits)
    from a ss sk1 have colon: "c = CHR '':''"
      by (subst (asm) parse_members.simps) (auto split: if_splits)
    from a ss sk1 colon obtain w r3 where pv: "parse_value (skip_ws r2) = Some (w, r3)"
      by (subst (asm) parse_members.simps) (auto split: option.splits)
    from a ss sk1 colon pv have g: "length r3 < length (skip_ws r2)"
      by (subst (asm) parse_members.simps) (auto split: if_splits)
    from a ss sk1 colon pv g obtain d r4 where sk3: "skip_ws r3 = d # r4"
      by (subst (asm) parse_members.simps) (auto split: list.splits)
    have l4: "length r4 < length s"
      using scanstring_shorter [OF ss] skip_ws_Cons_shorter [OF sk1] length_skip_ws [of r2]
        g skip_ws_Cons_shorter [OF sk3] by simp
    show "length r < length s"
    proof (cases "d = CHR ''}''")
      case True
      with a ss sk1 colon pv g sk3 have "r = r4"
        by (subst (asm) parse_members.simps) auto
      with l4 show ?thesis by simp
    next
      case False
      with a ss sk1 colon pv g sk3 have comma: "d = CHR '',''"
        by (subst (asm) parse_members.simps) (auto split: if_splits)
      from a ss sk1 colon pv g sk3 False comma obtain e r5 where sk4: "skip_ws r4 = e # r5"
        by (subst (asm) parse_members.simps) (auto split: list.splits)
      from a ss sk1 colon pv g sk3 False comma sk4 have q: "e = CHR 0x22"
        and pm: "parse_members (acc @ [(key, w)]) r5 = Some (v, r)"
        by (subst (asm) parse_members.simps, auto split: if_splits)+
      have ng: "\<not> \<not> length r3 < length (skip_ws r2)" using g by simp
      have "(key, r1) = (key, r1)" "(w, r3) = (w, r3)" by simp_all
      from "3.IH"(2) [OF ss this(1) sk1 _ pv this(2) ng sk3 False comma sk4 q] colon pm
      have "length r < length r5" by simp
      then show ?thesis using l4 skip_ws_Cons_shorter [OF sk4] by simp
    qed
  qed
next
  case (4 acc s)
  show ?case
  proof
    assume a: "parse_elements acc s = Some (v, r)"
    from a obtain w r1 where pv: "parse_value s = Some (w, r1)"
      by (subst (asm) parse_elements.simps) (auto split: option.splits)
    from a pv have g: "length r1 < length s"
      by (subst (asm) parse_elements.simps) (auto split: if_splits)
    from a pv g obtain d r2 where sk: "skip_ws r1 = d # r2"
      by (subst (asm) parse_elements.simps) (auto split: list.splits)
    have l2: "length r2 < length s"
      using g skip_ws_Cons_shorter [OF sk] by simp
    show "length r < length s"
    proof (cases "d = CHR '']''")
      case True
      with a pv g sk have "r = r2"
        by (subst (asm) parse_elements.simps) auto
      with l2 show ?thesis by simp
    next
      case False
      with a pv g sk have comma: "d = CHR '',''"
        and pe: "parse_elements (acc @ [w]) (skip_ws r2) = Some (v, r)"
        by (subst (asm) parse_elements.simps, auto split: if_splits)+
      have ng: "\<not> \<not> length r1 < length s" using g by simp
      have "(w, r1) = (w, r1)" by simp
      from "4.IH"(2) [OF pv this ng sk False comma] pe
      have "length r < length (skip_ws r2)" by simp
      then show ?thesis using l2 length_skip_ws [of r2] by simp
    qed
  qed
qed

text \<open>The two loops as the decoder runs them, without the test.\<close>

lemma parse_elements_unfold:
  "parse_elements acc s =
     (case parse_value s of
        None \<Rightarrow> None
      | Some (v, r1) \<Rightarrow>
          (case skip_ws r1 of
             [] \<Rightarrow> None
           | d # r2 \<Rightarrow>
               if d = CHR '']'' then Some (JArr (acc @ [v]), r2)
               else if d = CHR '','' then parse_elements (acc @ [v]) (skip_ws r2)
               else None))"
proof (cases "parse_value s")
  case None
  then show ?thesis by (subst parse_elements.simps) simp
next
  case (Some p)
  obtain v r1 where p: "p = (v, r1)" by (cases p)
  with Some parse_shorter(1) [of s v r1] have "length r1 < length s" by simp
  with Some p show ?thesis by (subst parse_elements.simps) simp
qed

lemma parse_members_unfold:
  "parse_members acc s =
     (case scanstring s of
        None \<Rightarrow> None
      | Some (key, r1) \<Rightarrow>
          (case skip_ws r1 of
             [] \<Rightarrow> None
           | c # r2 \<Rightarrow>
               if c \<noteq> CHR '':'' then None
               else
                 (case parse_value (skip_ws r2) of
                    None \<Rightarrow> None
                  | Some (v, r3) \<Rightarrow>
                      (case skip_ws r3 of
                         [] \<Rightarrow> None
                       | d # r4 \<Rightarrow>
                           if d = CHR ''}'' then
                             Some (JObj (dict_of_pairs (acc @ [(key, v)])), r4)
                           else if d = CHR '','' then
                             (case skip_ws r4 of
                                [] \<Rightarrow> None
                              | e # r5 \<Rightarrow>
                                  if e = CHR 0x22
                                  then parse_members (acc @ [(key, v)]) r5
                                  else None)
                           else None))))"
proof -
  have g: "\<And>x v r3. parse_value x = Some (v, r3) \<Longrightarrow> length r3 < length x"
    using parse_shorter(1) by blast
  show ?thesis
    by (subst parse_members.simps)
      (auto split: option.splits list.splits dest: g)
qed

text \<open>
  \<open>json.loads\<close>: whitespace, one value, whitespace, end of text. \<open>None\<close> stands for
  the \<open>JSONDecodeError\<close>.
\<close>

definition json_loads :: "string \<Rightarrow> json option" where
  "json_loads s =
     (case parse_value (skip_ws s) of
        None \<Rightarrow> None
      | Some (v, r) \<Rightarrow> if skip_ws r = [] then Some v else None)"

section \<open>The connector: configuration\<close>

definition ALERT_KEYWORDS :: "string list" where
  "ALERT_KEYWORDS = [''rain'', ''drizzle'', ''shower'', ''storm'']"

definition DEFAULT_CITY :: string where
  "DEFAULT_CITY = ''Chennai''"

section \<open>The two regular expressions\<close>

text \<open>
  \<open>re.search(r"\{[\s\S]*?\}", text)\<close>. \<open>lazy_to_brace\<close> matches \<open>[\s\S]*?\}\<close> at the
  start of its argument: the lazy star tries the closing brace before it takes one more
  character, and \<open>[\s\S]\<close> takes any character. \<open>search_json_block\<close> tries the
  start positions from the left.
\<close>

fun lazy_to_brace :: "string \<Rightarrow> string option" where
  "lazy_to_brace [] = None"
| "lazy_to_brace (c # cs) =
     (if c = CHR ''}'' then Some [c]
      else (case lazy_to_brace cs of None \<Rightarrow> None | Some m \<Rightarrow> Some (c # m)))"

fun search_json_block :: "string \<Rightarrow> string option" where
  "search_json_block [] = None"
| "search_json_block (c # cs) =
     (if c = CHR ''{'' then
        (case lazy_to_brace cs of
           Some m \<Rightarrow> Some (c # m)
         | None \<Rightarrow> search_json_block cs)
      else search_json_block cs)"

text \<open>
  \<open>re.findall(r"in\s+([A-Za-z ]+)", user_input)\<close>. After \<open>in\<close> the greedy \<open>\s+\<close>
  first takes the whole run of whitespace and gives characters back one at a time, down
  to one, until the group \<open>[A-Za-z ]+\<close> matches where it stopped; the group is greedy
  and nothing follows it. \<open>match_city_at\<close> returns the group with the length of the
  whole match; \<open>findall_from\<close> walks the text, skipping what a match consumed, and
  collects the groups.
\<close>

definition is_city_char :: "char \<Rightarrow> bool" where
  "is_city_char c =
     (let n = (of_char c :: nat) in
      (65 \<le> n \<and> n \<le> 90) \<or> (97 \<le> n \<and> n \<le> 122) \<or> n = 32)"

fun match_ws_group :: "nat \<Rightarrow> string \<Rightarrow> (string \<times> nat) option" where
  "match_ws_group 0 r = None"
| "match_ws_group (Suc j) r =
     (let g = takeWhile is_city_char (drop (Suc j) r)
      in if g \<noteq> [] then Some (g, Suc j + length g) else match_ws_group j r)"

definition match_city_at :: "string \<Rightarrow> (string \<times> nat) option" where
  "match_city_at s =
     (case s of
        i # n # r \<Rightarrow>
          if i = CHR ''i'' \<and> n = CHR ''n'' then
            (case match_ws_group (length (takeWhile is_space r)) r of
               None \<Rightarrow> None
             | Some (g, m) \<Rightarrow> Some (g, 2 + m))
          else None
      | _ \<Rightarrow> None)"

fun findall_from :: "nat \<Rightarrow> string \<Rightarrow> string list" where
  "findall_from k [] = []"
| "findall_from (Suc k) (c # cs) = findall_from k cs"
| "findall_from 0 (c # cs) =
     (case match_city_at (c # cs) of
        None \<Rightarrow> findall_from 0 cs
      | Some (g, m) \<Rightarrow> g # findall_from (m - 1) cs)"

definition findall_city :: "string \<Rightarrow> string list" where
  "findall_city s = findall_from 0 s"

text \<open>
  The pattern read as a statement about the text: \<open>in_words s\<close> says that \<open>s\<close> starts
  with \<open>in\<close>, then at least one whitespace character, then a character of
  \<open>[A-Za-z ]\<close>; the pattern has a match at position \<open>p\<close> of \<open>u\<close> when
  \<open>in_words (drop p u)\<close>.
\<close>

definition in_words :: "string \<Rightarrow> bool" where
  "in_words s =
     (\<exists>ws c rest. s = ''in'' @ ws @ c # rest \<and> ws \<noteq> [] \<and> list_all is_space ws \<and> is_city_char c)"

section \<open>detect_tool_call\<close>

text \<open>
  The argument is whatever \<open>ask_ollama\<close> returned; \<open>re.search\<close> raises \<open>TypeError\<close>
  on anything but a string, outside the \<open>try\<close>. \<open>(None, None)\<close> is the pair of nulls.
  A decoded value that is not a dict ends in \<open>(None, None)\<close> on every path: the
  membership test or the subscript raises inside the \<open>try\<close>, or the test is false.
\<close>

definition detect_tool_call :: "json \<Rightarrow> exn + (json \<times> json)" where
  "detect_tool_call text =
     (case text of
        JStr t \<Rightarrow>
          (case search_json_block t of
             None \<Rightarrow> Inr (JNull, JNull)
           | Some block \<Rightarrow>
               (case json_loads block of
                  None \<Rightarrow> Inr (JNull, JNull)
                | Some j \<Rightarrow>
                    (case j of
                       JObj kvs \<Rightarrow>
                         (case (map_of kvs ''name'', map_of kvs ''arguments'') of
                            (Some n, Some a) \<Rightarrow> Inr (n, a)
                          | _ \<Rightarrow> Inr (JNull, JNull))
                     | _ \<Rightarrow> Inr (JNull, JNull))))
      | _ \<Rightarrow> Inl TypeError)"

section \<open>The world outside the connector\<close>

text \<open>
  What the process meets at its blocking calls is scripted: the \<open>k\<close>-th call of
  \<open>input\<close> and the \<open>k\<close>-th POST to each endpoint get the \<open>k\<close>-th entry of the
  matching script. A POST returns a response (status code and body text), raises an
  exception of \<open>requests\<close>, or is cut by a keyboard interrupt; \<open>r.json()\<close> is
  \<open>json_loads\<close> of the body text. The interrupt is delivered at \<open>input\<close> and at a POST;
  \<open>time.sleep\<close> only passes time. \<open>str_of\<close> is the text an f-string writes for a
  value that is not a string.
\<close>

datatype http_outcome = Response int string | Request_failed | Interrupted

datatype input_event = Line string | End_of_input | Ctrl_C

record env =
  input_script :: "nat \<Rightarrow> input_event"
  ollama_script :: "nat \<Rightarrow> http_outcome"
  mcp_script :: "nat \<Rightarrow> http_outcome"
  str_of :: "json \<Rightarrow> string"

text \<open>
  The lines \<open>log\<close> and \<open>print\<close> write, by message, with the values they show and
  without the clock time.
\<close>

datatype out_line =
    Banner
  | System_prompt_initialized
  | Goodbye
  | Ollama_says json
  | Ollama_failed int exn
  | Mcp_http_failed int string
  | Mcp_exception exn
  | Forcing_get_weather
  | Forcing_send_notification
  | No_tool_call
  | Tool_detected json json
  | Empty_mcp_result
  | Mcp_result json
  | Weather_alert_detected
  | Notification json
  | Final_answer json
  | Session_ended_by_user
  | Unexpected_error exn

text \<open>
  The state a run changes: how many lines were read, the prompts posted to the model
  endpoint, the \<open>(tool, arguments)\<close> of each call posted to the tool endpoint, and the
  lines written.
\<close>

record world =
  inputs_read :: nat
  ollama_posts :: "string list"
  mcp_posts :: "(json \<times> json) list"
  out_lines :: "out_line list"

definition log :: "out_line \<Rightarrow> world \<Rightarrow> world" where
  "log msg w = w\<lparr>out_lines := out_lines w @ [msg]\<rparr>"

definition fmt :: "env \<Rightarrow> json \<Rightarrow> string" where
  "fmt env v = (case v of JStr s \<Rightarrow> s | _ \<Rightarrow> str_of env v)"

section \<open>ask_ollama\<close>

text \<open>
  \<open>ollama_attempts env prompt attempt n\<close> is the \<open>for\<close> loop with \<open>n\<close> rounds left.
  Inside the \<open>try\<close>: the POST, \<open>r.json()\<close>, and \<open>data.get\<close>, which only a dict has.
\<close>

fun ollama_attempts :: "env \<Rightarrow> string \<Rightarrow> int \<Rightarrow> nat \<Rightarrow> world \<Rightarrow> (exn + json) \<times> world" where
  "ollama_attempts env prompt attempt 0 w =
     (Inr (JStr ''[Error: Ollama request failed after retries]''), w)"
| "ollama_attempts env prompt attempt (Suc n) w =
     (let w1 = w\<lparr>ollama_posts := ollama_posts w @ [prompt]\<rparr> in
      case ollama_script env (length (ollama_posts w)) of
        Interrupted \<Rightarrow> (Inl KeyboardInterrupt, w1)
      | Request_failed \<Rightarrow>
          ollama_attempts env prompt (attempt + 1) n
            (log (Ollama_failed (attempt + 1) RequestException) w1)
      | Response status text \<Rightarrow>
          (case json_loads text of
             None \<Rightarrow>
               ollama_attempts env prompt (attempt + 1) n
                 (log (Ollama_failed (attempt + 1) JSONDecodeError) w1)
           | Some data \<Rightarrow>
               (case data of
                  JObj kvs \<Rightarrow>
                    (Inr (case map_of kvs ''response'' of Some v \<Rightarrow> v | None \<Rightarrow> JStr text), w1)
                | _ \<Rightarrow>
                    ollama_attempts env prompt (attempt + 1) n
                      (log (Ollama_failed (attempt + 1) AttributeError) w1))))"

definition ask_ollama :: "env \<Rightarrow> string \<Rightarrow> int \<Rightarrow> world \<Rightarrow> (exn + json) \<times> world" where
  "ask_ollama env prompt max_retries w = ollama_attempts env prompt 0 (nat max_retries) w"

section \<open>call_mcp_tool\<close>

fun mcp_attempts :: "env \<Rightarrow> json \<Rightarrow> json \<Rightarrow> nat \<Rightarrow> world \<Rightarrow> (exn + json) \<times> world" where
  "mcp_attempts env tool args 0 w =
     (Inr (JObj [(''error'', JStr (''MCP call failed for '' @ fmt env tool))]), w)"
| "mcp_attempts env tool args (Suc n) w =
     (let w1 = w\<lparr>mcp_posts := mcp_posts w @ [(tool, args)]\<rparr> in
      case mcp_script env (length (mcp_posts w)) of
        Interrupted \<Rightarrow> (Inl KeyboardInterrupt, w1)
      | Request_failed \<Rightarrow> mcp_attempts env tool args n (log (Mcp_exception RequestException) w1)
      | Response status text \<Rightarrow>
          if status = 200 then
            (case json_loads text of
               None \<Rightarrow> mcp_attempts env tool args n (log (Mcp_exception JSONDecodeError) w1)
             | Some j \<Rightarrow> (Inr j, w1))
          else mcp_attempts env tool args n (log (Mcp_http_failed status (take 200 text)) w1))"

definition call_mcp_tool :: "env \<Rightarrow> json \<Rightarrow> json \<Rightarrow> int \<Rightarrow> world \<Rightarrow> (exn + json) \<times> world" where
  "call_mcp_tool env tool args max_retries w = mcp_attempts env tool args (nat max_retries) w"

section \<open>chat_loop\<close>

text \<open>
  \<open>d.get(k, default)\<close> and \<open>x[0]\<close> on a decoded value: only a dict has \<open>get\<close>; a
  list and a string are indexed, a dict has no key \<open>0\<close>, the rest cannot be subscripted.
\<close>

definition py_get :: "json \<Rightarrow> string \<Rightarrow> json \<Rightarrow> exn + json" where
  "py_get d k dflt =
     (case d of
        JObj kvs \<Rightarrow> Inr (case map_of kvs k of Some v \<Rightarrow> v | None \<Rightarrow> dflt)
      | _ \<Rightarrow> Inl AttributeError)"

definition py_first :: "json \<Rightarrow> exn + json" where
  "py_first x =
     (case x of
        JArr xs \<Rightarrow> (case xs of [] \<Rightarrow> Inl IndexError | v # _ \<Rightarrow> Inr v)
      | JStr s \<Rightarrow> (case s of [] \<Rightarrow> Inl IndexError | c # _ \<Rightarrow> Inr (JStr [c]))
      | JObj kvs \<Rightarrow> Inl KeyError
      | _ \<Rightarrow> Inl TypeError)"

text \<open>\<open>resp.get("result", {}).get("content", [{}])[0].get("text", "")\<close>\<close>

definition extract_text :: "json \<Rightarrow> exn + json" where
  "extract_text resp =
     (case py_get resp ''result'' (JObj []) of
        Inl e \<Rightarrow> Inl e
      | Inr result \<Rightarrow>
          (case py_get result ''content'' (JArr [JObj []]) of
             Inl e \<Rightarrow> Inl e
           | Inr content \<Rightarrow>
               (case py_first content of
                  Inl e \<Rightarrow> Inl e
                | Inr item \<Rightarrow> py_get item ''text'' (JStr []))))"

text \<open>
  Intent resolution: \<open>detect_tool_call\<close> on the model's output, then the fallback on
  the user's input when the tool is falsy.
\<close>

definition resolve_intent :: "string \<Rightarrow> json \<Rightarrow> world \<Rightarrow> (exn + (json \<times> json)) \<times> world" where
  "resolve_intent user_input model_output w =
     (case detect_tool_call model_output of
        Inl e \<Rightarrow> (Inl e, w)
      | Inr (tool, args) \<Rightarrow>
          if \<not> truthy tool then
            if contains ''weather'' (lower user_input) then
              (let city_match = findall_city user_input;
                   city = (case city_match of [] \<Rightarrow> DEFAULT_CITY | g # _ \<Rightarrow> strip g)
               in (Inr (JStr ''get_weather'', JObj [(''city'', JStr city)]),
                   log Forcing_get_weather w))
            else if contains ''notify'' (lower user_input) \<or> contains ''alert'' (lower user_input)
            then (Inr (JStr ''send_notification'',
                       JObj [(''notification_input'', JStr (user_input @ ''|general_alerts''))]),
                  log Forcing_send_notification w)
            else (Inr (tool, args), w)
          else (Inr (tool, args), w))"

text \<open>The rain trigger. \<open>text.lower()\<close> exists on a string only.\<close>

definition alert_policy :: "env \<Rightarrow> json \<Rightarrow> json \<Rightarrow> world \<Rightarrow> (exn + unit) \<times> world" where
  "alert_policy env tool text w =
     (if tool = JStr ''get_weather'' then
        (case text of
           JStr t \<Rightarrow>
             if list_ex (\<lambda>k. contains k (lower t)) ALERT_KEYWORDS then
               (case call_mcp_tool env (JStr ''send_notification'')
                       (JObj [(''notification_input'', JStr (t @ ''|weather_alerts''))]) 2
                       (log Weather_alert_detected w) of
                  (Inl e, w1) \<Rightarrow> (Inl e, w1)
                | (Inr notif_result, w1) \<Rightarrow>
                    (case extract_text notif_result of
                       Inl e \<Rightarrow> (Inl e, w1)
                     | Inr notif_text \<Rightarrow> (Inr (), log (Notification notif_text) w1)))
             else (Inr (), w)
         | _ \<Rightarrow> (Inl AttributeError, w))
      else (Inr (), w))"

datatype flow = Continue | Break

text \<open>From the tool call to the summary.\<close>

definition dispatch :: "env \<Rightarrow> json \<Rightarrow> json \<Rightarrow> world \<Rightarrow> (exn + flow) \<times> world" where
  "dispatch env tool args w =
     (case call_mcp_tool env tool args 2 w of
        (Inl e, w1) \<Rightarrow> (Inl e, w1)
      | (Inr mcp_response, w1) \<Rightarrow>
          (case extract_text mcp_response of
             Inl e \<Rightarrow> (Inl e, w1)
           | Inr text \<Rightarrow>
               if \<not> truthy text then (Inr Continue, log Empty_mcp_result w1)
               else
                 (case alert_policy env tool text (log (Mcp_result text) w1) of
                    (Inl e, w2) \<Rightarrow> (Inl e, w2)
                  | (Inr u, w2) \<Rightarrow>
                      (case ask_ollama env
                              (''Summarize in one line, clearly and concisely: '' @ fmt env text)
                              3 w2 of
                         (Inl e, w3) \<Rightarrow> (Inl e, w3)
                       | (Inr summary, w3) \<Rightarrow> (Inr Continue, log (Final_answer summary) w3)))))"

text \<open>From the reinforced prompt to the resolved tool.\<close>

definition process_request :: "env \<Rightarrow> string \<Rightarrow> world \<Rightarrow> (exn + flow) \<times> world" where
  "process_request env user_input w =
     (case ask_ollama env
             (''Reminder: Never show code. Use MCP tools only.'' @ [CHR 0x0A, CHR 0x0A]
                @ ''User request: '' @ user_input) 3 w of
        (Inl e, w1) \<Rightarrow> (Inl e, w1)
      | (Inr model_output, w1) \<Rightarrow>
          (case resolve_intent user_input model_output (log (Ollama_says model_output) w1) of
             (Inl e, w2) \<Rightarrow> (Inl e, w2)
           | (Inr (tool, args), w2) \<Rightarrow>
               if \<not> truthy tool then (Inr Continue, log No_tool_call w2)
               else dispatch env tool args (log (Tool_detected tool args) w2)))"

text \<open>The body of the \<open>try\<close>: one line of input, then the request.\<close>

definition turn_body :: "env \<Rightarrow> world \<Rightarrow> (exn + flow) \<times> world" where
  "turn_body env w =
     (let w1 = w\<lparr>inputs_read := Suc (inputs_read w)\<rparr> in
      case input_script env (inputs_read w) of
        Ctrl_C \<Rightarrow> (Inl KeyboardInterrupt, w1)
      | End_of_input \<Rightarrow> (Inl EOFError, w1)
      | Line l \<Rightarrow>
          (let user_input = strip l in
           if lower user_input = ''exit'' \<or> lower user_input = ''quit''
           then (Inr Break, log Goodbye w1)
           else process_request env user_input w1))"

text \<open>One round of \<open>while True\<close> with its two handlers.\<close>

definition turn :: "env \<Rightarrow> world \<Rightarrow> flow \<times> world" where
  "turn env w =
     (case turn_body env w of
        (Inr f, w1) \<Rightarrow> (f, w1)
      | (Inl e, w1) \<Rightarrow>
          if e = KeyboardInterrupt then (Break, log Session_ended_by_user w1)
          else (Continue, log (Unexpected_error e) w1))"

text \<open>
  The loop, with a bound on the rounds it is followed for: \<open>None\<close> when the session is
  still running after \<open>n\<close> rounds, the final state when it has ended.
\<close>

fun session :: "nat \<Rightarrow> env \<Rightarrow> world \<Rightarrow> world option" where
  "session 0 env w = None"
| "session (Suc n) env w =
     (case turn env w of
        (Break, w1) \<Rightarrow> Some w1
      | (Continue, w1) \<Rightarrow> session n env w1)"

text \<open>
  \<open>chat_loop\<close>: the banner, the system prompt sent once outside the \<open>try\<close>, then the
  loop. \<open>Inl\<close> is an exception that leaves \<open>chat_loop\<close>.
\<close>

definition system_instruction :: string where
  \<open>system_instruction =
     concat (map (\<lambda>l. l @ [CHR 0x0A])
       [''SYSTEM INSTRUCTION:'',
        ''You are an AI assistant connected to a local MCP server.'',
        ''You cannot write or show code.'',
        ''You must call tools for all external actions.'',
        ''Available tools:'',
        ''1. get_weather(city: string)'',
        ''2. send_notification(notification_input: string)'',
        ''Always respond ONLY in JSON format like:'',
        ''{ "name": "<tool_name>", "arguments": { ... } }''])\<close>

definition chat_loop :: "nat \<Rightarrow> env \<Rightarrow> world \<Rightarrow> exn + world option" where
  "chat_loop n env w =
     (case ask_ollama env system_instruction 3 (log Banner w) of
        (Inl e, w1) \<Rightarrow> Inl e
      | (Inr reply, w1) \<Rightarrow> Inr (session n env (log System_prompt_initialized w1)))"

text \<open>The world when the process starts.\<close>

definition start :: world where
  "start = \<lparr>inputs_read = 0, ollama_posts = [], mcp_posts = [], out_lines = []\<rparr>"

section \<open>Vocabulary of the properties\<close>




text \<open>
  A keyboard interrupt cut one of the requests numbered from \<open>a\<close> up to, not
  including, \<open>b\<close>.
\<close>

definition interrupted :: "(nat \<Rightarrow> http_outcome) \<Rightarrow> nat \<Rightarrow> nat \<Rightarrow> bool" where
  "interrupted script a b = (\<exists>k. a \<le> k \<and> k < b \<and> script k = Interrupted)"

text \<open>
  The line the round reads is an exit keyword; a keyboard interrupt reached the process
  during the round that took the world from \<open>w\<close> to \<open>w'\<close>: at its \<open>input\<close> or at one
  of the requests it posted.
\<close>

definition exit_typed :: "env \<Rightarrow> world \<Rightarrow> bool" where
  "exit_typed env w =
     (case input_script env (inputs_read w) of
        Line l \<Rightarrow> lower (strip l) = ''exit'' \<or> lower (strip l) = ''quit''
      | _ \<Rightarrow> False)"

definition interrupt_delivered :: "env \<Rightarrow> world \<Rightarrow> world \<Rightarrow> bool" where
  "interrupt_delivered env w w' =
     (input_script env (inputs_read w) = Ctrl_C
      \<or> interrupted (ollama_script env) (length (ollama_posts w)) (length (ollama_posts w'))
      \<or> interrupted (mcp_script env) (length (mcp_posts w)) (length (mcp_posts w')))"

text \<open>
  The bookkeeping of one step of a round, from \<open>w\<close> to the result and world \<open>rw\<close>: it
  reads no input, only adds requests, and raises \<open>KeyboardInterrupt\<close> exactly when one
  of the requests it added was cut.
\<close>

definition step_ok :: "env \<Rightarrow> world \<Rightarrow> (exn + 'a) \<times> world \<Rightarrow> bool" where
  "step_ok env w rw =
     (inputs_read (snd rw) = inputs_read w
      \<and> length (ollama_posts w) \<le> length (ollama_posts (snd rw))
      \<and> length (mcp_posts w) \<le> length (mcp_posts (snd rw))
      \<and> ((fst rw = Inl KeyboardInterrupt)
           = (interrupted (ollama_script env) (length (ollama_posts w))
                (length (ollama_posts (snd rw)))
              \<or> interrupted (mcp_script env) (length (mcp_posts w))
                (length (mcp_posts (snd rw))))))"

text \<open>The world after \<open>m\<close> rounds.\<close>

fun after_turns :: "nat \<Rightarrow> env \<Rightarrow> world \<Rightarrow> world" where
  "after_turns 0 env w = w"
| "after_turns (Suc m) env w = after_turns m env (snd (turn env w))"



definition interrupted_env :: env where
  "interrupted_env =
     \<lparr>input_script = (\<lambda>k. Ctrl_C),
      ollama_script = (\<lambda>k. Interrupted),
      mcp_script = (\<lambda>k. Interrupted),
      str_of = (\<lambda>v. [])\<rparr>"



definition rainy_env :: env where
  \<open>rainy_env =
     \<lparr>input_script = (\<lambda>k. Line ''weather in Paris''),
      ollama_script = (\<lambda>k. Response 200 ''{"response": "Paris: light rain."}''),
      mcp_script = (\<lambda>k. Response 200 ''{"result": {"content": [{"type": "text", "text": "Light Rain expected"}]}}''),
      str_of = (\<lambda>v. [])\<rparr>\<close>

definition crash_env :: env where
  \<open>crash_env =
     \<lparr>input_script = (\<lambda>k. if k = 0 then Line ''weather in Paris'' else Line '' EXIT ''),
      ollama_script = (\<lambda>k. Response 200 ''{"response": "no idea"}''),
      mcp_script = (\<lambda>k. Response 200 ''{"result": {"content": []}}''),
      str_of = (\<lambda>v. [])\<rparr>\<close>

section \<open>Intent resolution\<close>

lemma resolve_intent_world:
  "snd (resolve_intent user_input model_output w) = w
   \<or> snd (resolve_intent user_input model_output w) = log Forcing_get_weather w
   \<or> snd (resolve_intent user_input model_output w) = log Forcing_send_notification w"
  by (cases "detect_tool_call model_output")
    (simp_all add: resolve_intent_def Let_def split: prod.splits)

text \<open>
  C9. Intent resolution is a function of the user's input and the model's output alone:
  run in any two states of the world it gives the same outcome (the same tool and
  arguments, or the same exception), and the only trace it leaves in the world is lines
  added to the output.
\<close>

theorem resolve_intent_pure:
  "fst (resolve_intent user_input model_output w) = fst (resolve_intent user_input model_output w')
   \<and> (\<exists>ls. snd (resolve_intent user_input model_output w) = w\<lparr>out_lines := out_lines w @ ls\<rparr>)"
proof
  show "fst (resolve_intent user_input model_output w)
        = fst (resolve_intent user_input model_output w')"
    by (simp add: resolve_intent_def Let_def split: sum.splits prod.splits)
  have "w = w\<lparr>out_lines := out_lines w @ []\<rparr>" by simp
  with resolve_intent_world [of user_input model_output w]
  show "\<exists>ls. snd (resolve_intent user_input model_output w) = w\<lparr>out_lines := out_lines w @ ls\<rparr>"
    unfolding log_def by metis
qed

text \<open>
  C8. When the user's input contains "notify" or "alert" in any letter case and does not
  contain "weather", and the model's output yields no structured call (the detected
  tool is falsy), resolution gives \<open>send_notification\<close> with \<open>notification_input\<close> equal
  to the user's input followed by \<open>|general_alerts\<close>.
\<close>

theorem fallback_notification:
  assumes "contains ''notify'' (lower user_input) \<or> contains ''alert'' (lower user_input)"
    and "\<not> contains ''weather'' (lower user_input)"
    and "detect_tool_call model_output = Inr (tool, args)"
    and "\<not> truthy tool"
  shows "fst (resolve_intent user_input model_output w)
         = Inr (JStr ''send_notification'',
                JObj [(''notification_input'', JStr (user_input @ ''|general_alerts''))])"
  using assms by (simp add: resolve_intent_def)

theorem fallback_notification_witness:
  "(contains ''notify'' (lower ''notify the team'') \<or> contains ''alert'' (lower ''notify the team''))
   \<and> \<not> contains ''weather'' (lower ''notify the team'')
   \<and> detect_tool_call (JStr ''I will let them know.'') = Inr (JNull, JNull)
   \<and> \<not> truthy JNull
   \<and> fst (resolve_intent ''notify the team'' (JStr ''I will let them know.'') start)
         = Inr (JStr ''send_notification'',
                JObj [(''notification_input'', JStr ''notify the team|general_alerts'')])"
proof -
  have a: "contains ''notify'' (lower ''notify the team'')
           \<or> contains ''alert'' (lower ''notify the team'')"
    by code_simp
  have b: "\<not> contains ''weather'' (lower ''notify the team'')"
    by code_simp
  have c: "detect_tool_call (JStr ''I will let them know.'') = Inr (JNull, JNull)"
    by code_simp
  have d: "\<not> truthy JNull" by simp
  from fallback_notification [OF a b c d, of start] a b c d show ?thesis by simp
qed

subsection \<open>The city pattern\<close>

lemma match_ws_group_Some:
  "match_ws_group k r = Some (g, m) \<Longrightarrow>
   \<exists>j. 1 \<le> j \<and> j \<le> k \<and> g = takeWhile is_city_char (drop j r) \<and> g \<noteq> [] \<and> m = j + length g"
proof (induction k)
  case 0
  then show ?case by simp
next
  case (Suc k)
  show ?case
  proof (cases "takeWhile is_city_char (drop (Suc k) r) = []")
    case True
    with Suc.prems have "match_ws_group k r = Some (g, m)" by (simp add: Let_def)
    from Suc.IH [OF this] show ?thesis by (metis le_Suc_eq)
  next
    case False
    with Suc.prems have "g = takeWhile is_city_char (drop (Suc k) r)" "m = Suc k + length g"
      by (auto simp: Let_def)
    with False show ?thesis by (intro exI [of _ "Suc k"]) simp
  qed
qed

lemma match_ws_group_None:
  "match_ws_group k r = None \<Longrightarrow> 1 \<le> j \<Longrightarrow> j \<le> k \<Longrightarrow> takeWhile is_city_char (drop j r) = []"
proof (induction k)
  case 0
  then show ?case by simp
next
  case (Suc k)
  from Suc.prems(1) have t: "takeWhile is_city_char (drop (Suc k) r) = []"
    and n: "match_ws_group k r = None"
    by (simp_all add: Let_def split: if_splits)
  show ?case
  proof (cases "j = Suc k")
    case True
    with t show ?thesis by simp
  next
    case False
    with Suc.prems have "j \<le> k" by simp
    from Suc.IH [OF n Suc.prems(2) this] show ?thesis .
  qed
qed

lemma takeWhile_all_append:
  "list_all P ws \<Longrightarrow> takeWhile P (ws @ xs) = ws @ takeWhile P xs"
  by (induction ws) auto

lemma match_city_at_None_iff: "match_city_at s = None \<longleftrightarrow> \<not> in_words s"
proof
  assume none: "match_city_at s = None"
  show "\<not> in_words s"
  proof
    assume "in_words s"
    then obtain ws c rest where s: "s = ''in'' @ ws @ c # rest" and ws: "ws \<noteq> []"
      and sp: "list_all is_space ws" and c: "is_city_char c"
      unfolding in_words_def by blast
    let ?r = "ws @ c # rest"
    from none s have n: "match_ws_group (length (takeWhile is_space ?r)) ?r = None"
      by (simp add: match_city_at_def split: option.splits prod.splits)
    have "length ws \<le> length (takeWhile is_space ?r)"
      by (simp add: takeWhile_all_append [OF sp])
    moreover have "1 \<le> length ws" using ws by (cases ws) simp_all
    ultimately have "takeWhile is_city_char (drop (length ws) ?r) = []"
      using match_ws_group_None [OF n] by blast
    with c show False by simp
  qed
next
  assume ni: "\<not> in_words s"
  show "match_city_at s = None"
  proof (rule ccontr)
    assume "match_city_at s \<noteq> None"
    then obtain g m where some: "match_city_at s = Some (g, m)" by auto
    then obtain r where s: "s = CHR ''i'' # CHR ''n'' # r"
      by (auto simp: match_city_at_def split: list.splits if_splits)
    with some obtain m' where "match_ws_group (length (takeWhile is_space r)) r = Some (g, m')"
      by (auto simp: match_city_at_def split: option.splits)
    from match_ws_group_Some [OF this] obtain j where j: "1 \<le> j"
      "j \<le> length (takeWhile is_space r)" "g = takeWhile is_city_char (drop j r)" "g \<noteq> []"
      by blast
    from j(3,4) obtain c rest where d: "drop j r = c # rest" and c: "is_city_char c"
      by (cases "drop j r") (auto split: if_splits)
    have "take j r = take j (takeWhile is_space r)"
      using j(2) by (metis append_eq_conv_conj takeWhile_dropWhile_id take_append take_all_iff
          diff_is_0_eq' take_0 append_Nil2 length_take min.absorb2)
    then have sp: "list_all is_space (take j r)"
      by (metis in_set_takeD list_all_iff set_takeWhileD)
    have "take j r \<noteq> []" using j(1,2) by (cases r) auto
    moreover have "s = ''in'' @ take j r @ c # rest"
      using s d by (metis append_Cons append_Nil append_take_drop_id)
    ultimately have "in_words s" unfolding in_words_def using sp c by blast
    with ni show False by simp
  qed
qed

lemma findall_from_skip: "k \<le> length u \<Longrightarrow> findall_from k u = findall_from 0 (drop k u)"
  by (induction k u rule: findall_from.induct) simp_all

lemma findall_Nil_iff: "findall_from 0 u = [] \<longleftrightarrow> (\<forall>p. match_city_at (drop p u) = None)"
proof (induction u)
  case Nil
  show ?case by (simp add: match_city_at_def)
next
  case (Cons c cs)
  show ?case
  proof (cases "match_city_at (c # cs)")
    case None
    have "(\<forall>p. match_city_at (drop p (c # cs)) = None) \<longleftrightarrow> (\<forall>p. match_city_at (drop p cs) = None)"
    proof
      assume a: "\<forall>p. match_city_at (drop p (c # cs)) = None"
      show "\<forall>p. match_city_at (drop p cs) = None"
      proof
        fix p from a have "match_city_at (drop (Suc p) (c # cs)) = None" by blast
        then show "match_city_at (drop p cs) = None" by simp
      qed
    next
      assume a: "\<forall>p. match_city_at (drop p cs) = None"
      show "\<forall>p. match_city_at (drop p (c # cs)) = None"
      proof
        fix p show "match_city_at (drop p (c # cs)) = None"
          using a None by (cases p) simp_all
      qed
    qed
    with None Cons show ?thesis by simp
  next
    case (Some a)
    then have "findall_from 0 (c # cs) \<noteq> []" by (cases a) simp
    moreover have "\<not> (\<forall>p. match_city_at (drop p (c # cs)) = None)"
    proof
      assume "\<forall>p. match_city_at (drop p (c # cs)) = None"
      then have "match_city_at (drop 0 (c # cs)) = None" by blast
      with Some show False by simp
    qed
    ultimately show ?thesis by simp
  qed
qed

lemma findall_first:
  "(\<forall>q<p. match_city_at (drop q u) = None) \<Longrightarrow> match_city_at (drop p u) = Some (g, n)
   \<Longrightarrow> \<exists>gs. findall_from 0 u = g # gs"
proof (induction u arbitrary: p)
  case Nil
  then show ?case by (simp add: match_city_at_def)
next
  case (Cons c cs)
  show ?case
  proof (cases p)
    case 0
    with Cons.prems(2) show ?thesis by simp
  next
    case (Suc p')
    with Cons.prems(1) have none: "match_city_at (c # cs) = None" by fastforce
    have "\<forall>q<p'. match_city_at (drop q cs) = None"
    proof (intro allI impI)
      fix q assume "q < p'"
      then have "Suc q < p" using Suc by simp
      with Cons.prems(1) have "match_city_at (drop (Suc q) (c # cs)) = None" by blast
      then show "match_city_at (drop q cs) = None" by simp
    qed
    moreover from Cons.prems(2) Suc have "match_city_at (drop p' cs) = Some (g, n)" by simp
    ultimately obtain gs where "findall_from 0 cs = g # gs" using Cons.IH by blast
    with none show ?thesis by simp
  qed
qed

lemma takeWhile_stop:
  "list_all P g \<Longrightarrow> rest = [] \<or> \<not> P (hd rest) \<Longrightarrow> takeWhile P (g @ rest) = g"
  by (cases rest) (auto simp: takeWhile_all_append list_all_iff)

lemma match_city_at_words:
  assumes "ws \<noteq> []" "list_all is_space ws" "g \<noteq> []" "list_all is_city_char g"
    and "\<not> is_space (hd g)" "rest = [] \<or> \<not> is_city_char (hd rest)"
  shows "match_city_at (''in'' @ ws @ g @ rest) = Some (g, 2 + length ws + length g)"
proof -
  from assms(3,5) have "g @ rest \<noteq> [] \<and> \<not> is_space (hd (g @ rest))" by simp
  then have k: "takeWhile is_space (ws @ g @ rest) = ws"
    using takeWhile_stop [OF assms(2), of "g @ rest"] by simp
  obtain k' where l: "length ws = Suc k'" using assms(1) by (cases ws) simp_all
  have "takeWhile is_city_char (drop (Suc k') (ws @ g @ rest)) = g"
    using l takeWhile_stop [OF assms(4,6)] by simp
  with assms(3) l have "match_ws_group (length ws) (ws @ g @ rest) = Some (g, length ws + length g)"
    by (simp add: Let_def)
  with k show ?thesis by (simp add: match_city_at_def)
qed

text \<open>
  C4. When the user's input contains "weather" in any letter case and the model's output
  yields no structured call (the detected tool is falsy), resolution gives
  \<open>get_weather\<close> with one argument \<open>city\<close>: the default city \<open>Chennai\<close> when the
  pattern \<open>in\<close>, whitespace, words matches nowhere in the input, and otherwise the
  words captured by the leftmost match, stripped.
\<close>

theorem fallback_weather:
  assumes "contains ''weather'' (lower user_input)"
    and "detect_tool_call model_output = Inr (tool, args)"
    and "\<not> truthy tool"
  shows "\<exists>city. fst (resolve_intent user_input model_output w)
                 = Inr (JStr ''get_weather'', JObj [(''city'', JStr city)])
          \<and> ((\<forall>p. \<not> in_words (drop p user_input)) \<longrightarrow> city = ''Chennai'')
          \<and> (\<forall>p g n. (\<forall>q<p. \<not> in_words (drop q user_input))
                 \<and> match_city_at (drop p user_input) = Some (g, n) \<longrightarrow> city = strip g)"
proof -
  let ?city = "case findall_city user_input of [] \<Rightarrow> DEFAULT_CITY | g # x \<Rightarrow> strip g"
  have r: "fst (resolve_intent user_input model_output w)
           = Inr (JStr ''get_weather'', JObj [(''city'', JStr ?city)])"
    using assms by (simp add: resolve_intent_def Let_def)
  have d: "(\<forall>p. \<not> in_words (drop p user_input)) \<longrightarrow> ?city = ''Chennai''"
  proof
    assume "\<forall>p. \<not> in_words (drop p user_input)"
    then have "findall_city user_input = []"
      by (simp add: findall_city_def findall_Nil_iff match_city_at_None_iff)
    then show "?city = ''Chennai''" by (simp add: DEFAULT_CITY_def)
  qed
  have f: "\<forall>p g n. (\<forall>q<p. \<not> in_words (drop q user_input))
                 \<and> match_city_at (drop p user_input) = Some (g, n) \<longrightarrow> ?city = strip g"
  proof (intro allI impI)
    fix p g n
    assume a: "(\<forall>q<p. \<not> in_words (drop q user_input))
                 \<and> match_city_at (drop p user_input) = Some (g, n)"
    then have "\<forall>q<p. match_city_at (drop q user_input) = None"
      by (simp add: match_city_at_None_iff)
    from findall_first [OF this] a obtain gs where "findall_city user_input = g # gs"
      unfolding findall_city_def by blast
    then show "?city = strip g" by simp
  qed
  from r d f show ?thesis by blast
qed

theorem fallback_weather_witness:
  "contains ''weather'' (lower ''weather in Paris'')
   \<and> detect_tool_call (JStr ''It may be sunny.'') = Inr (JNull, JNull)
   \<and> \<not> truthy JNull
   \<and> fst (resolve_intent ''weather in Paris'' (JStr ''It may be sunny.'') start)
       = Inr (JStr ''get_weather'', JObj [(''city'', JStr ''Paris'')])
   \<and> (\<exists>city. fst (resolve_intent ''weather in Paris'' (JStr ''It may be sunny.'') start)
                 = Inr (JStr ''get_weather'', JObj [(''city'', JStr city)])
          \<and> ((\<forall>p. \<not> in_words (drop p ''weather in Paris'')) \<longrightarrow> city = ''Chennai'')
          \<and> (\<forall>p g n. (\<forall>q<p. \<not> in_words (drop q ''weather in Paris''))
                 \<and> match_city_at (drop p ''weather in Paris'') = Some (g, n) \<longrightarrow> city = strip g))"
proof -
  have a: "contains ''weather'' (lower ''weather in Paris'')" by code_simp
  have b: "detect_tool_call (JStr ''It may be sunny.'') = Inr (JNull, JNull)" by code_simp
  have c: "\<not> truthy JNull" by simp
  have e: "fst (resolve_intent ''weather in Paris'' (JStr ''It may be sunny.'') start)
       = Inr (JStr ''get_weather'', JObj [(''city'', JStr ''Paris'')])" by code_simp
  from fallback_weather [OF a b c, of start] a b c e show ?thesis by blast
qed

subsection \<open>The structured stage\<close>

lemma lazy_to_brace_append:
  "CHR ''}'' \<notin> set inner
   \<Longrightarrow> lazy_to_brace (inner @ CHR ''}'' # post) = Some (inner @ [CHR ''}''])"
  by (induction inner) auto

lemma search_json_block_first:
  "CHR ''{'' \<notin> set pre \<Longrightarrow> CHR ''}'' \<notin> set inner
   \<Longrightarrow> search_json_block (pre @ CHR ''{'' # inner @ CHR ''}'' # post)
       = Some (CHR ''{'' # inner @ [CHR ''}''])"
  by (induction pre) (auto simp: lazy_to_brace_append)

text \<open>
  C1, as stated, at two texts that contain a well-formed object with a name and
  arguments: one where another brace block comes first (the first block is the one
  looked at, and nothing is resolved), one where the name is the empty string (a falsy
  tool hands the turn to the fallback, here the weather one).
\<close>

theorem structured_call_can_lose:
  \<open>json_loads ''{"name": "get_weather", "arguments": "Paris"}''
     = Some (JObj [(''name'', JStr ''get_weather''), (''arguments'', JStr ''Paris'')])
   \<and> fst (resolve_intent ''hello''
            (JStr ''{"note": "plan"} {"name": "get_weather", "arguments": "Paris"}'') start)
     = Inr (JNull, JNull)
   \<and> json_loads ''{"name": "", "arguments": "Paris"}''
     = Some (JObj [(''name'', JStr ''''), (''arguments'', JStr ''Paris'')])
   \<and> fst (resolve_intent ''weather in Rome'' (JStr ''{"name": "", "arguments": "Paris"}'') start)
     = Inr (JStr ''get_weather'', JObj [(''city'', JStr ''Rome'')])\<close>
  by code_simp


text \<open>
  C1, amended. When the first opening brace of the model's text starts a JSON object
  with no closing brace before its own, with a name and arguments and a truthy name,
  resolution returns exactly that name and those arguments and logs nothing, whatever
  the user's input says.
\<close>

theorem structured_call_wins:
  assumes "CHR ''{'' \<notin> set pre" and "CHR ''}'' \<notin> set inner"
    and "json_loads (CHR ''{'' # inner @ [CHR ''}'']) = Some (JObj kvs)"
    and "map_of kvs ''name'' = Some name" and "map_of kvs ''arguments'' = Some args"
    and "truthy name"
  shows "resolve_intent user_input (JStr (pre @ CHR ''{'' # inner @ CHR ''}'' # post)) w
         = (Inr (name, args), w)"
proof -
  have "detect_tool_call (JStr (pre @ CHR ''{'' # inner @ CHR ''}'' # post)) = Inr (name, args)"
    using assms(3,4,5) search_json_block_first [OF assms(1,2), of post]
    by (simp add: detect_tool_call_def)
  with assms(6) show ?thesis by (simp add: resolve_intent_def)
qed

theorem structured_call_wins_witness:
  \<open>CHR ''{'' \<notin> set ''Sure: ''
   \<and> CHR ''}'' \<notin> set ''"name": "get_weather", "arguments": "Paris"''
   \<and> json_loads (CHR ''{'' # ''"name": "get_weather", "arguments": "Paris"'' @ [CHR ''}''])
       = Some (JObj [(''name'', JStr ''get_weather''), (''arguments'', JStr ''Paris'')])
   \<and> truthy (JStr ''get_weather'')
   \<and> resolve_intent ''notify me about the weather in Rome''
         (JStr (''Sure: '' @ CHR ''{'' # ''"name": "get_weather", "arguments": "Paris"''
                @ CHR ''}'' # '' ok'')) start
       = (Inr (JStr ''get_weather'', JStr ''Paris''), start)\<close>
proof -
  have a: \<open>CHR ''{'' \<notin> set ''Sure: ''\<close> by simp
  have b: \<open>CHR ''}'' \<notin> set ''"name": "get_weather", "arguments": "Paris"''\<close> by simp
  have c: \<open>json_loads (CHR ''{'' # ''"name": "get_weather", "arguments": "Paris"'' @ [CHR ''}''])
       = Some (JObj [(''name'', JStr ''get_weather''), (''arguments'', JStr ''Paris'')])\<close>
    by code_simp
  have d: "map_of [(''name'', JStr ''get_weather''), (''arguments'', JStr ''Paris'')] ''name''
           = Some (JStr ''get_weather'')" by simp
  have e: "map_of [(''name'', JStr ''get_weather''), (''arguments'', JStr ''Paris'')] ''arguments''
           = Some (JStr ''Paris'')" by simp
  have f: "truthy (JStr ''get_weather'')" by simp
  from structured_call_wins [OF a b c d e f, of "''notify me about the weather in Rome''" "'' ok''" start]
    a b c f show ?thesis by blast
qed


text \<open>
  The format the system prompt asks for, an arguments object inside the call, is outside
  the amended claim: the lazy pattern stops at the first closing brace, the block it cuts
  is not JSON, nothing is detected, and with "weather" in the user's input the fallback
  answers with the city of the user's input, not the model's.
\<close>

theorem nested_arguments_not_detected:
  \<open>json_loads ''{"name": "get_weather", "arguments": {"city": "Paris"}}''
     = Some (JObj [(''name'', JStr ''get_weather''),
                   (''arguments'', JObj [(''city'', JStr ''Paris'')])])
   \<and> search_json_block ''{"name": "get_weather", "arguments": {"city": "Paris"}}''
     = Some ''{"name": "get_weather", "arguments": {"city": "Paris"}''
   \<and> json_loads ''{"name": "get_weather", "arguments": {"city": "Paris"}'' = None
   \<and> detect_tool_call (JStr ''{"name": "get_weather", "arguments": {"city": "Paris"}}'')
     = Inr (JNull, JNull)
   \<and> fst (resolve_intent ''weather in London''
            (JStr ''{"name": "get_weather", "arguments": {"city": "Paris"}}'') start)
     = Inr (JStr ''get_weather'', JObj [(''city'', JStr ''London'')])\<close>
  by code_simp


section \<open>The text of a tool result\<close>

lemma extract_text_no_result:
  "map_of kvs ''result'' = None \<Longrightarrow> extract_text (JObj kvs) = Inr (JStr [])"
  by (simp add: extract_text_def py_get_def py_first_def)

lemma extract_text_no_content:
  "map_of kvs ''result'' = Some (JObj res) \<Longrightarrow> map_of res ''content'' = None
   \<Longrightarrow> extract_text (JObj kvs) = Inr (JStr [])"
  by (simp add: extract_text_def py_get_def py_first_def)

lemma extract_text_no_text:
  "map_of kvs ''result'' = Some (JObj res) \<Longrightarrow> map_of res ''content'' = Some (JArr (JObj item # items))
   \<Longrightarrow> map_of item ''text'' = None \<Longrightarrow> extract_text (JObj kvs) = Inr (JStr [])"
  by (simp add: extract_text_def py_get_def py_first_def)

lemma extract_text_success:
  "map_of kvs ''result'' = Some (JObj res) \<Longrightarrow> map_of res ''content'' = Some (JArr (JObj item # items))
   \<Longrightarrow> map_of item ''text'' = Some t \<Longrightarrow> extract_text (JObj kvs) = Inr t"
  by (simp add: extract_text_def py_get_def py_first_def)

text \<open>
  C2, at a response whose content list is empty: the default \<open>[{}]\<close> only stands in for
  a missing key, and the subscript raises \<open>IndexError\<close>.
\<close>

theorem extract_text_empty_content:
  \<open>json_loads ''{"result": {"content": []}}''
     = Some (JObj [(''result'', JObj [(''content'', JArr [])])])
   \<and> extract_text (JObj [(''result'', JObj [(''content'', JArr [])])]) = Inl IndexError\<close>
  by code_simp


section \<open>The model gateway\<close>







lemma all_less_3: "(\<forall>i<3. P (i::nat)) \<longleftrightarrow> P 0 \<and> P 1 \<and> P 2"
proof -
  have "\<And>i::nat. i < 3 \<longleftrightarrow> i = 0 \<or> i = 1 \<or> i = 2" by auto
  then show ?thesis by auto
qed







section \<open>The tool gateway\<close>







section \<open>The alert policy\<close>

lemma sublist_map_iff:
  "sublist k (map f t) \<longleftrightarrow> (\<exists>u. sublist u t \<and> map f u = k)"
proof
  assume "sublist k (map f t)"
  then obtain ps ss where "map f t = ps @ k @ ss" unfolding sublist_def by blast
  then obtain a vs where t: "t = a @ vs" and vs: "map f vs = k @ ss"
    by (metis map_eq_append_conv)
  from vs obtain b c where "vs = b @ c" "map f b = k"
    by (metis map_eq_append_conv)
  with t have "t = a @ b @ c" "map f b = k" by simp_all
  then show "\<exists>u. sublist u t \<and> map f u = k" unfolding sublist_def by blast
next
  assume "\<exists>u. sublist u t \<and> map f u = k"
  then obtain u ps ss where "t = ps @ u @ ss" "map f u = k" unfolding sublist_def by blast
  then have "map f t = map f ps @ k @ map f ss" by simp
  then show "sublist k (map f t)" unfolding sublist_def by blast
qed

lemma mcp_attempts_posts:
  "\<exists>m. m \<le> n \<and> (0 < n \<longrightarrow> 0 < m)
       \<and> mcp_posts (snd (mcp_attempts env tool args n w)) = mcp_posts w @ replicate m (tool, args)"
proof (induction n arbitrary: w)
  case 0
  show ?case by simp
next
  case (Suc n)
  let ?w1 = "w\<lparr>mcp_posts := mcp_posts w @ [(tool, args)]\<rparr>"
  have "snd (mcp_attempts env tool args (Suc n) w) = ?w1
        \<or> (\<exists>x. mcp_attempts env tool args (Suc n) w = mcp_attempts env tool args n (log x ?w1))"
    by (auto simp: Let_def split: http_outcome.splits option.splits)
  then show ?case
  proof
    assume "snd (mcp_attempts env tool args (Suc n) w) = ?w1"
    then have "mcp_posts (snd (mcp_attempts env tool args (Suc n) w))
               = mcp_posts w @ replicate 1 (tool, args)" by simp
    then show ?thesis by (intro exI [of _ 1]) simp
  next
    assume "\<exists>x. mcp_attempts env tool args (Suc n) w = mcp_attempts env tool args n (log x ?w1)"
    then obtain x where s: "mcp_attempts env tool args (Suc n) w
        = mcp_attempts env tool args n (log x ?w1)" by blast
    from Suc.IH [of "log x ?w1"] obtain m where m: "m \<le> n"
      "mcp_posts (snd (mcp_attempts env tool args n (log x ?w1)))
         = mcp_posts (log x ?w1) @ replicate m (tool, args)" by blast
    have "mcp_posts (snd (mcp_attempts env tool args (Suc n) w))
          = mcp_posts w @ replicate (Suc m) (tool, args)"
      using s m(2) by (simp add: log_def)
    with m(1) show ?thesis by (intro exI [of _ "Suc m"]) simp
  qed
qed

text \<open>
  C3. On a result text, the alert policy posts to the tool endpoint if and only if the
  tool is \<open>get_weather\<close> and some substring of the text is, up to letter case, one of
  \<open>rain\<close>, \<open>drizzle\<close>, \<open>shower\<close>, \<open>storm\<close>; so it posts nothing for a
  \<open>send_notification\<close> result. Every request it posts (one, or two when the first is
  retried) is \<open>send_notification\<close> with \<open>notification_input\<close> equal to the result text
  followed by \<open>|weather_alerts\<close>.
\<close>

theorem alert_policy_fires:
  "(mcp_posts (snd (alert_policy env tool (JStr t) w)) \<noteq> mcp_posts w
      \<longleftrightarrow> tool = JStr ''get_weather''
          \<and> (\<exists>k \<in> set ALERT_KEYWORDS. \<exists>u. sublist u t \<and> lower u = k))
   \<and> (\<exists>n \<le> 2. mcp_posts (snd (alert_policy env tool (JStr t) w))
         = mcp_posts w
           @ replicate n (JStr ''send_notification'',
                          JObj [(''notification_input'', JStr (t @ ''|weather_alerts''))]))"
proof -
  let ?notif = "(JStr ''send_notification'',
                 JObj [(''notification_input'', JStr (t @ ''|weather_alerts''))])"
  let ?cond = "tool = JStr ''get_weather''
          \<and> (\<exists>k \<in> set ALERT_KEYWORDS. \<exists>u. sublist u t \<and> lower u = k)"
  have kw: "list_ex (\<lambda>k. contains k (lower t)) ALERT_KEYWORDS
            \<longleftrightarrow> (\<exists>k \<in> set ALERT_KEYWORDS. \<exists>u. sublist u t \<and> lower u = k)"
    unfolding list_ex_iff contains_def lower_def sublist_map_iff ..
  show ?thesis
  proof (cases ?cond)
    case False
    then have "snd (alert_policy env tool (JStr t) w) = w"
      using kw by (auto simp: alert_policy_def)
    then have "mcp_posts (snd (alert_policy env tool (JStr t) w)) = mcp_posts w @ replicate 0 ?notif"
      by simp
    with False show ?thesis by (metis append_Nil2 le0 replicate_0)
  next
    case True
    let ?w0 = "log Weather_alert_detected w"
    let ?r = "call_mcp_tool env (JStr ''send_notification'')
                (JObj [(''notification_input'', JStr (t @ ''|weather_alerts''))]) 2 ?w0"
    from mcp_attempts_posts [of 2 env "JStr ''send_notification''"
        "JObj [(''notification_input'', JStr (t @ ''|weather_alerts''))]" ?w0]
    obtain m where m: "m \<le> 2" "0 < m" "mcp_posts (snd ?r) = mcp_posts w @ replicate m ?notif"
      by (auto simp: call_mcp_tool_def log_def)
    have "mcp_posts (snd (alert_policy env tool (JStr t) w)) = mcp_posts (snd ?r)"
      using True kw
      by (auto simp: alert_policy_def log_def split: prod.splits sum.splits)
    with m have p: "mcp_posts (snd (alert_policy env tool (JStr t) w))
                    = mcp_posts w @ replicate m ?notif" by simp
    with m(2) have "mcp_posts (snd (alert_policy env tool (JStr t) w)) \<noteq> mcp_posts w"
      by (cases m) simp_all
    with True p m(1) show ?thesis by blast
  qed
qed

theorem alert_policy_fires_witness:
  "mcp_posts (snd (alert_policy rainy_env (JStr ''get_weather'') (JStr ''Light Rain expected'') start))
     = [(JStr ''send_notification'',
         JObj [(''notification_input'', JStr ''Light Rain expected|weather_alerts'')])]
   \<and> snd (alert_policy rainy_env (JStr ''send_notification'') (JStr ''Light Rain expected'') start)
     = start
   \<and> (mcp_posts (snd (alert_policy rainy_env (JStr ''get_weather'')
                         (JStr ''Light Rain expected'') start)) \<noteq> mcp_posts start
      \<longleftrightarrow> JStr ''get_weather'' = JStr ''get_weather''
          \<and> (\<exists>k \<in> set ALERT_KEYWORDS. \<exists>u. sublist u ''Light Rain expected'' \<and> lower u = k))"
proof -
  have a: "mcp_posts (snd (alert_policy rainy_env (JStr ''get_weather'')
                             (JStr ''Light Rain expected'') start))
     = [(JStr ''send_notification'',
         JObj [(''notification_input'', JStr ''Light Rain expected|weather_alerts'')])]"
    by code_simp
  have b: "snd (alert_policy rainy_env (JStr ''send_notification'')
                  (JStr ''Light Rain expected'') start) = start"
    by (simp add: alert_policy_def)
  from alert_policy_fires [of rainy_env "JStr ''get_weather''" "''Light Rain expected''" start]
    a b show ?thesis by blast
qed

section \<open>The session\<close>

lemma interrupted_empty [simp]: "\<not> interrupted s a a"
  by (simp add: interrupted_def)

lemma interrupted_one: "interrupted s a (Suc a) \<longleftrightarrow> s a = Interrupted"
  by (auto simp: interrupted_def less_Suc_eq_le)

lemma interrupted_split:
  "a \<le> b \<Longrightarrow> b \<le> c \<Longrightarrow> interrupted s a c \<longleftrightarrow> interrupted s a b \<or> interrupted s b c"
  unfolding interrupted_def by (meson less_le_trans le_trans not_le)

lemma step_ok_pure: "r \<noteq> Inl KeyboardInterrupt \<Longrightarrow> step_ok env w (r, w)"
  by (simp add: step_ok_def)

lemma step_ok_log_post: "step_ok env w (r, w') \<Longrightarrow> step_ok env w (r, log x w')"
  by (simp add: step_ok_def log_def)

lemma step_ok_log_pre: "step_ok env (log x w) rw \<Longrightarrow> step_ok env w rw"
  by (simp add: step_ok_def log_def)

lemma step_ok_seq:
  assumes "step_ok env w (Inr v, w1)" and "step_ok env w1 rw"
  shows "step_ok env w rw"
proof -
  from assms(1) have a: "inputs_read w1 = inputs_read w"
    "length (ollama_posts w) \<le> length (ollama_posts w1)"
    "length (mcp_posts w) \<le> length (mcp_posts w1)"
    "\<not> interrupted (ollama_script env) (length (ollama_posts w)) (length (ollama_posts w1))"
    "\<not> interrupted (mcp_script env) (length (mcp_posts w)) (length (mcp_posts w1))"
    by (simp_all add: step_ok_def)
  from assms(2) have b: "inputs_read (snd rw) = inputs_read w1"
    "length (ollama_posts w1) \<le> length (ollama_posts (snd rw))"
    "length (mcp_posts w1) \<le> length (mcp_posts (snd rw))"
    "(fst rw = Inl KeyboardInterrupt)
       = (interrupted (ollama_script env) (length (ollama_posts w1)) (length (ollama_posts (snd rw)))
          \<or> interrupted (mcp_script env) (length (mcp_posts w1)) (length (mcp_posts (snd rw))))"
    by (simp_all add: step_ok_def)
  have "interrupted (ollama_script env) (length (ollama_posts w)) (length (ollama_posts (snd rw)))
        = interrupted (ollama_script env) (length (ollama_posts w1)) (length (ollama_posts (snd rw)))"
    using interrupted_split [OF a(2) b(2)] a(4) by simp
  moreover have "interrupted (mcp_script env) (length (mcp_posts w)) (length (mcp_posts (snd rw)))
        = interrupted (mcp_script env) (length (mcp_posts w1)) (length (mcp_posts (snd rw)))"
    using interrupted_split [OF a(3) b(3)] a(5) by simp
  ultimately show ?thesis using a b by (simp add: step_ok_def)
qed

lemma step_ok_raise:
  "step_ok env w (Inr v, w1) \<Longrightarrow> e \<noteq> KeyboardInterrupt \<Longrightarrow> step_ok env w (Inl e, w1)"
  by (simp add: step_ok_def)

lemma step_ok_return:
  "step_ok env w (Inr v, w1) \<Longrightarrow> step_ok env w (Inr v', w1)"
  by (simp add: step_ok_def)

lemma ollama_attempts_ok: "step_ok env w (ollama_attempts env prompt a n w)"
proof (induction n arbitrary: a w)
  case 0
  show ?case by (simp add: step_ok_def)
next
  case (Suc n)
  let ?w1 = "w\<lparr>ollama_posts := ollama_posts w @ [prompt]\<rparr>"
  show ?case
  proof (cases "ollama_script env (length (ollama_posts w)) = Interrupted")
    case True
    then show ?thesis by (simp add: step_ok_def Let_def interrupted_one)
  next
    case False
    then have one: "step_ok env w (Inr JNull, ?w1)"
      by (simp add: step_ok_def interrupted_one)
    have "(\<exists>v. ollama_attempts env prompt a (Suc n) w = (Inr v, ?w1))
          \<or> (\<exists>x. ollama_attempts env prompt a (Suc n) w
                  = ollama_attempts env prompt (a + 1) n (log x ?w1))"
      using False by (auto simp: Let_def split: http_outcome.splits option.splits json.splits)
    then show ?thesis
    proof
      assume "\<exists>v. ollama_attempts env prompt a (Suc n) w = (Inr v, ?w1)"
      then obtain v where "ollama_attempts env prompt a (Suc n) w = (Inr v, ?w1)" by blast
      with step_ok_return [OF one, of v] show ?thesis by simp
    next
      assume "\<exists>x. ollama_attempts env prompt a (Suc n) w
                  = ollama_attempts env prompt (a + 1) n (log x ?w1)"
      then obtain x where s: "ollama_attempts env prompt a (Suc n) w
                  = ollama_attempts env prompt (a + 1) n (log x ?w1)" by blast
      have "step_ok env (log x ?w1) (ollama_attempts env prompt (a + 1) n (log x ?w1))"
        by (rule Suc.IH)
      then have "step_ok env ?w1 (ollama_attempts env prompt (a + 1) n (log x ?w1))"
        by (rule step_ok_log_pre)
      with one s show ?thesis using step_ok_seq by metis
    qed
  qed
qed

lemma mcp_attempts_ok: "step_ok env w (mcp_attempts env tool args n w)"
proof (induction n arbitrary: w)
  case 0
  show ?case by (simp add: step_ok_def)
next
  case (Suc n)
  let ?w1 = "w\<lparr>mcp_posts := mcp_posts w @ [(tool, args)]\<rparr>"
  show ?case
  proof (cases "mcp_script env (length (mcp_posts w)) = Interrupted")
    case True
    then show ?thesis by (simp add: step_ok_def Let_def interrupted_one)
  next
    case False
    then have one: "step_ok env w (Inr JNull, ?w1)"
      by (simp add: step_ok_def interrupted_one)
    have "(\<exists>v. mcp_attempts env tool args (Suc n) w = (Inr v, ?w1))
          \<or> (\<exists>x. mcp_attempts env tool args (Suc n) w
                  = mcp_attempts env tool args n (log x ?w1))"
      using False by (auto simp: Let_def split: http_outcome.splits option.splits)
    then show ?thesis
    proof
      assume "\<exists>v. mcp_attempts env tool args (Suc n) w = (Inr v, ?w1)"
      then obtain v where "mcp_attempts env tool args (Suc n) w = (Inr v, ?w1)" by blast
      with step_ok_return [OF one, of v] show ?thesis by simp
    next
      assume "\<exists>x. mcp_attempts env tool args (Suc n) w
                  = mcp_attempts env tool args n (log x ?w1)"
      then obtain x where s: "mcp_attempts env tool args (Suc n) w
                  = mcp_attempts env tool args n (log x ?w1)" by blast
      have "step_ok env (log x ?w1) (mcp_attempts env tool args n (log x ?w1))"
        by (rule Suc.IH)
      then have "step_ok env ?w1 (mcp_attempts env tool args n (log x ?w1))"
        by (rule step_ok_log_pre)
      with one s show ?thesis using step_ok_seq by metis
    qed
  qed
qed

lemma ask_ollama_ok: "step_ok env w (ask_ollama env prompt n w)"
  by (simp add: ask_ollama_def ollama_attempts_ok)

lemma call_mcp_tool_ok: "step_ok env w (call_mcp_tool env tool args n w)"
  by (simp add: call_mcp_tool_def mcp_attempts_ok)

lemma py_get_exn: "py_get d k dflt = Inl e \<Longrightarrow> e \<noteq> KeyboardInterrupt"
  by (auto simp: py_get_def split: json.splits)

lemma py_first_exn: "py_first x = Inl e \<Longrightarrow> e \<noteq> KeyboardInterrupt"
  by (auto simp: py_first_def split: json.splits list.splits)

lemma extract_text_exn: "extract_text resp = Inl e \<Longrightarrow> e \<noteq> KeyboardInterrupt"
  by (auto simp: extract_text_def split: sum.splits dest: py_get_exn py_first_exn)

lemma detect_tool_call_exn: "detect_tool_call m = Inl e \<Longrightarrow> e \<noteq> KeyboardInterrupt"
  by (auto simp: detect_tool_call_def split: json.splits option.splits)

lemma step_ok_Inl:
  "step_ok env w ((Inl e, w1) :: (exn + 'a) \<times> world)
   \<Longrightarrow> step_ok env w ((Inl e, w1) :: (exn + 'b) \<times> world)"
  by (simp add: step_ok_def)

lemma alert_policy_ok: "step_ok env w (alert_policy env tool rtext w)"
proof (cases "tool = JStr ''get_weather''")
  case False
  then show ?thesis by (simp add: alert_policy_def step_ok_pure)
next
  case True
  show ?thesis
  proof (cases rtext)
    case (JStr t)
    show ?thesis
    proof (cases "list_ex (\<lambda>k. contains k (lower t)) ALERT_KEYWORDS")
      case False
      with True JStr show ?thesis by (simp add: alert_policy_def step_ok_pure)
    next
      case kw: True
      let ?w0 = "log Weather_alert_detected w"
      let ?r = "call_mcp_tool env (JStr ''send_notification'')
                  (JObj [(''notification_input'', JStr (t @ ''|weather_alerts''))]) 2 ?w0"
      have r: "step_ok env w ?r" by (rule step_ok_log_pre) (rule call_mcp_tool_ok)
      obtain res w1 where rw: "?r = (res, w1)" by (cases ?r)
      show ?thesis
      proof (cases res)
        case (Inl e)
        with True JStr kw rw have "alert_policy env tool rtext w = (Inl e, w1)"
          by (simp add: alert_policy_def)
        moreover from r rw Inl have "step_ok env w (Inl e :: exn + json, w1)" by simp
        ultimately show ?thesis using step_ok_Inl by metis
      next
        case (Inr notif_result)
        with r rw have ok: "step_ok env w (Inr notif_result, w1)" by simp
        show ?thesis
        proof (cases "extract_text notif_result")
          case (Inl e)
          with True JStr kw rw Inr have "alert_policy env tool rtext w = (Inl e, w1)"
            by (simp add: alert_policy_def)
          with step_ok_raise [OF ok extract_text_exn [OF Inl]] show ?thesis by simp
        next
          case (Inr notif_text)
          with True JStr kw rw \<open>res = Inr notif_result\<close>
          have "alert_policy env tool rtext w = (Inr (), log (Notification notif_text) w1)"
            by (simp add: alert_policy_def)
          with step_ok_log_post [OF step_ok_return [OF ok]] show ?thesis by simp
        qed
      qed
    qed
  qed (simp_all add: True alert_policy_def step_ok_pure)
qed

lemma dispatch_ok: "step_ok env w (dispatch env tool args w)"
proof -
  let ?r = "call_mcp_tool env tool args 2 w"
  have r: "step_ok env w ?r" by (rule call_mcp_tool_ok)
  obtain res w1 where rw: "?r = (res, w1)" by (cases ?r)
  show ?thesis
  proof (cases res)
    case (Inl e)
    with rw have "dispatch env tool args w = (Inl e, w1)" by (simp add: dispatch_def)
    moreover from r rw Inl have "step_ok env w (Inl e :: exn + json, w1)" by simp
    ultimately show ?thesis using step_ok_Inl by metis
  next
    case (Inr mcp_response)
    with r rw have ok: "step_ok env w (Inr mcp_response, w1)" by simp
    show ?thesis
    proof (cases "extract_text mcp_response")
      case (Inl e)
      with rw Inr have "dispatch env tool args w = (Inl e, w1)" by (simp add: dispatch_def)
      with step_ok_raise [OF ok extract_text_exn [OF Inl]] show ?thesis by simp
    next
      case ex: (Inr rtext)
      show ?thesis
      proof (cases "truthy rtext")
        case False
        with rw Inr ex have "dispatch env tool args w = (Inr Continue, log Empty_mcp_result w1)"
          by (simp add: dispatch_def)
        with step_ok_log_post [OF step_ok_return [OF ok]] show ?thesis by simp
      next
        case tr: True
        let ?w1' = "log (Mcp_result rtext) w1"
        let ?a = "alert_policy env tool rtext ?w1'"
        have ok1: "step_ok env w (Inr mcp_response, ?w1')" by (rule step_ok_log_post [OF ok])
        have a: "step_ok env w ?a" by (rule step_ok_seq [OF ok1 alert_policy_ok])
        obtain ares w2 where aw: "?a = (ares, w2)" by (cases ?a)
        show ?thesis
        proof (cases ares)
          case (Inl e)
          with rw Inr ex tr aw have "dispatch env tool args w = (Inl e, w2)"
            by (simp add: dispatch_def)
          moreover from a aw Inl have "step_ok env w (Inl e :: exn + unit, w2)" by simp
          ultimately show ?thesis using step_ok_Inl by metis
        next
          case au: (Inr u)
          with a aw have ok2: "step_ok env w (Inr u, w2)" by simp
          let ?s = "ask_ollama env
                     (''Summarize in one line, clearly and concisely: '' @ fmt env rtext) 3 w2"
          have s: "step_ok env w ?s" by (rule step_ok_seq [OF ok2 ask_ollama_ok])
          obtain sres w3 where sw: "?s = (sres, w3)" by (cases ?s)
          show ?thesis
          proof (cases sres)
            case (Inl e)
            with rw Inr ex tr aw au sw have "dispatch env tool args w = (Inl e, w3)"
              by (simp add: dispatch_def)
            moreover from s sw Inl have "step_ok env w (Inl e :: exn + json, w3)" by simp
            ultimately show ?thesis using step_ok_Inl by metis
          next
            case (Inr summary)
            with rw \<open>res = Inr mcp_response\<close> ex tr aw au sw
            have "dispatch env tool args w = (Inr Continue, log (Final_answer summary) w3)"
              by (simp add: dispatch_def)
            moreover from s sw Inr have "step_ok env w (Inr summary, w3)" by simp
            ultimately show ?thesis
              using step_ok_log_post [OF step_ok_return] by metis
          qed
        qed
      qed
    qed
  qed
qed

lemma dispatch_no_break: "fst (dispatch env tool args w) \<noteq> Inr Break"
  by (auto simp: dispatch_def split: prod.splits sum.splits)

lemma resolve_intent_exn:
  "fst (resolve_intent u m w) = Inl e \<Longrightarrow> e \<noteq> KeyboardInterrupt"
  by (cases "detect_tool_call m")
    (auto simp: resolve_intent_def Let_def split: prod.splits if_splits dest: detect_tool_call_exn)

lemma process_request_ok: "step_ok env w (process_request env user_input w)"
proof -
  let ?p = "''Reminder: Never show code. Use MCP tools only.'' @ [CHR 0x0A, CHR 0x0A]
                @ ''User request: '' @ user_input"
  let ?r = "ask_ollama env ?p 3 w"
  have r: "step_ok env w ?r" by (rule ask_ollama_ok)
  obtain res w1 where rw: "?r = (res, w1)" by (cases ?r)
  show ?thesis
  proof (cases res)
    case (Inl e)
    with rw have "process_request env user_input w = (Inl e, w1)"
      by (simp add: process_request_def)
    moreover from r rw Inl have "step_ok env w (Inl e :: exn + json, w1)" by simp
    ultimately show ?thesis using step_ok_Inl by metis
  next
    case (Inr model_output)
    with r rw have ok: "step_ok env w (Inr model_output, w1)" by simp
    let ?w1' = "log (Ollama_says model_output) w1"
    let ?i = "resolve_intent user_input model_output ?w1'"
    obtain ires w2 where iw: "?i = (ires, w2)" by (cases ?i)
    from resolve_intent_world [of user_input model_output ?w1'] iw
    have w2: "w2 = ?w1' \<or> w2 = log Forcing_get_weather ?w1'
              \<or> w2 = log Forcing_send_notification ?w1'" by simp
    have ok2: "step_ok env w (Inr model_output, w2)"
      using w2 step_ok_log_post [OF ok] step_ok_log_post [OF step_ok_log_post [OF ok]]
      by metis
    show ?thesis
    proof (cases ires)
      case (Inl e)
      with rw Inr iw have "process_request env user_input w = (Inl e, w2)"
        by (simp add: process_request_def)
      moreover from iw Inl have "e \<noteq> KeyboardInterrupt"
        using resolve_intent_exn [of user_input model_output ?w1' e] by simp
      ultimately show ?thesis using step_ok_raise [OF ok2] by simp
    next
      case ir: (Inr p)
      obtain tool args where p: "p = (tool, args)" by (cases p)
      show ?thesis
      proof (cases "truthy tool")
        case False
        with rw Inr iw ir p
        have "process_request env user_input w = (Inr Continue, log No_tool_call w2)"
          by (simp add: process_request_def)
        with step_ok_log_post [OF step_ok_return [OF ok2]] show ?thesis by simp
      next
        case True
        with rw Inr iw ir p
        have "process_request env user_input w
              = dispatch env tool args (log (Tool_detected tool args) w2)"
          by (simp add: process_request_def)
        moreover have "step_ok env w (dispatch env tool args (log (Tool_detected tool args) w2))"
          by (rule step_ok_seq [OF step_ok_log_post [OF ok2] dispatch_ok])
        ultimately show ?thesis by simp
      qed
    qed
  qed
qed

lemma process_request_no_break: "fst (process_request env user_input w) \<noteq> Inr Break"
proof -
  have "\<And>tool args w'. fst (dispatch env tool args w') \<noteq> Inr Break"
    by (rule dispatch_no_break)
  then show ?thesis
    by (auto simp: process_request_def split: prod.splits sum.splits)
qed

lemma turn_posts:
  "ollama_posts (snd (turn env w)) = ollama_posts (snd (turn_body env w))
   \<and> mcp_posts (snd (turn env w)) = mcp_posts (snd (turn_body env w))"
  by (cases "turn_body env w") (auto simp: turn_def log_def split: sum.splits)

lemma turn_Break_iff_body:
  "fst (turn env w) = Break
   \<longleftrightarrow> fst (turn_body env w) = Inr Break \<or> fst (turn_body env w) = Inl KeyboardInterrupt"
  by (cases "turn_body env w") (auto simp: turn_def split: sum.splits)

lemma turn_Break_iff:
  "fst (turn env w) = Break
   \<longleftrightarrow> exit_typed env w \<or> interrupt_delivered env w (snd (turn env w))"
proof (cases "input_script env (inputs_read w)")
  case Ctrl_C
  then have "fst (turn_body env w) = Inl KeyboardInterrupt" by (simp add: turn_body_def Let_def)
  with Ctrl_C show ?thesis by (simp add: turn_Break_iff_body interrupt_delivered_def)
next
  case End_of_input
  then have b: "turn_body env w = (Inl EOFError, w\<lparr>inputs_read := Suc (inputs_read w)\<rparr>)"
    by (simp add: turn_body_def Let_def)
  then have "fst (turn env w) \<noteq> Break" by (simp add: turn_Break_iff_body)
  moreover have "\<not> exit_typed env w" using End_of_input by (simp add: exit_typed_def)
  moreover have "\<not> interrupt_delivered env w (snd (turn env w))"
    using End_of_input b by (simp add: interrupt_delivered_def turn_posts)
  ultimately show ?thesis by simp
next
  case (Line l)
  let ?w1 = "w\<lparr>inputs_read := Suc (inputs_read w)\<rparr>"
  show ?thesis
  proof (cases "lower (strip l) = ''exit'' \<or> lower (strip l) = ''quit''")
    case True
    with Line have "fst (turn_body env w) = Inr Break" by (simp add: turn_body_def Let_def)
    moreover from True Line have "exit_typed env w" by (simp add: exit_typed_def)
    ultimately show ?thesis by (simp add: turn_Break_iff_body)
  next
    case False
    with Line have b: "turn_body env w = process_request env (strip l) ?w1"
      by (simp add: turn_body_def Let_def)
    have ne: "\<not> exit_typed env w" using False Line by (simp add: exit_typed_def)
    have ok: "step_ok env ?w1 (process_request env (strip l) ?w1)"
      by (rule process_request_ok)
    have "fst (turn_body env w) = Inl KeyboardInterrupt
          \<longleftrightarrow> interrupt_delivered env w (snd (turn env w))"
      using ok b Line by (simp add: step_ok_def interrupt_delivered_def turn_posts)
    moreover have "fst (turn_body env w) \<noteq> Inr Break"
      using b process_request_no_break [of env "strip l" ?w1] by simp
    ultimately show ?thesis using ne by (simp add: turn_Break_iff_body)
  qed
qed

lemma session_end:
  "session n env w = Some w' \<Longrightarrow>
   \<exists>m<n. (\<forall>j<m. fst (turn env (after_turns j env w)) = Continue)
         \<and> fst (turn env (after_turns m env w)) = Break
         \<and> w' = snd (turn env (after_turns m env w))"
proof (induction n arbitrary: w)
  case 0
  then show ?case by simp
next
  case (Suc n)
  obtain f w1 where t: "turn env w = (f, w1)" by (cases "turn env w")
  show ?case
  proof (cases f)
    case Break
    with Suc.prems t have "w' = w1" by simp
    with t Break have "(\<forall>j<0. fst (turn env (after_turns j env w)) = Continue)
         \<and> fst (turn env (after_turns 0 env w)) = Break
         \<and> w' = snd (turn env (after_turns 0 env w))" by simp
    then show ?thesis by blast
  next
    case Continue
    with Suc.prems t have "session n env w1 = Some w'" by simp
    from Suc.IH [OF this] obtain m where m: "m < n"
      "\<forall>j<m. fst (turn env (after_turns j env w1)) = Continue"
      "fst (turn env (after_turns m env w1)) = Break"
      "w' = snd (turn env (after_turns m env w1))" by blast
    have "\<forall>j<Suc m. fst (turn env (after_turns j env w)) = Continue"
    proof (intro allI impI)
      fix j assume j: "j < Suc m"
      show "fst (turn env (after_turns j env w)) = Continue"
      proof (cases j)
        case 0
        with t Continue show ?thesis by simp
      next
        case (Suc j')
        with j m(2) t show ?thesis by simp
      qed
    qed
    moreover have "fst (turn env (after_turns (Suc m) env w)) = Break"
      "w' = snd (turn env (after_turns (Suc m) env w))"
      using m(3,4) t by simp_all
    moreover have "Suc m < Suc n" using m(1) by simp
    ultimately show ?thesis by blast
  qed
qed

text \<open>
  C7. An exception other than \<open>KeyboardInterrupt\<close> raised inside a round is caught at
  the loop boundary and logged, and the loop goes on to the next round. A round ends the
  session if and only if the line it read is \<open>exit\<close> or \<open>quit\<close> (stripped, in any
  letter case) or a keyboard interrupt reached it; so a session that has ended went
  through rounds that all continued and then one round with an exit keyword or an
  interrupt.
\<close>

theorem turn_failure_keeps_session:
  "(\<forall>e. fst (turn_body env w) = Inl e \<and> e \<noteq> KeyboardInterrupt
        \<longrightarrow> turn env w = (Continue, log (Unexpected_error e) (snd (turn_body env w)))
            \<and> session (Suc n) env w
              = session n env (log (Unexpected_error e) (snd (turn_body env w))))
   \<and> (fst (turn env w) = Break
        \<longleftrightarrow> exit_typed env w \<or> interrupt_delivered env w (snd (turn env w)))
   \<and> (\<forall>w'. session n env w = Some w'
        \<longrightarrow> (\<exists>m<n. (\<forall>j<m. fst (turn env (after_turns j env w)) = Continue)
                  \<and> (exit_typed env (after_turns m env w)
                      \<or> interrupt_delivered env (after_turns m env w) w')
                  \<and> w' = snd (turn env (after_turns m env w))))"
proof (intro conjI allI impI)
  fix e assume a: "fst (turn_body env w) = Inl e \<and> e \<noteq> KeyboardInterrupt"
  then show t: "turn env w = (Continue, log (Unexpected_error e) (snd (turn_body env w)))"
    by (cases "turn_body env w") (simp add: turn_def)
  then show "session (Suc n) env w
              = session n env (log (Unexpected_error e) (snd (turn_body env w)))"
    by simp
next
  show "fst (turn env w) = Break
        \<longleftrightarrow> exit_typed env w \<or> interrupt_delivered env w (snd (turn env w))"
    by (rule turn_Break_iff)
next
  fix w' assume "session n env w = Some w'"
  from session_end [OF this] obtain m where m: "m < n"
    "\<forall>j<m. fst (turn env (after_turns j env w)) = Continue"
    "fst (turn env (after_turns m env w)) = Break"
    "w' = snd (turn env (after_turns m env w))" by blast
  from m(3,4) have "exit_typed env (after_turns m env w)
                    \<or> interrupt_delivered env (after_turns m env w) w'"
    using turn_Break_iff [of env "after_turns m env w"] by simp
  with m show "\<exists>m<n. (\<forall>j<m. fst (turn env (after_turns j env w)) = Continue)
                  \<and> (exit_typed env (after_turns m env w)
                      \<or> interrupt_delivered env (after_turns m env w) w')
                  \<and> w' = snd (turn env (after_turns m env w))"
    by blast
qed

theorem turn_failure_keeps_session_witness:
  "fst (turn_body crash_env start) = Inl IndexError
   \<and> turn crash_env start
       = (Continue, log (Unexpected_error IndexError) (snd (turn_body crash_env start)))
   \<and> session 1 crash_env start = None
   \<and> session 2 crash_env start = Some (snd (turn crash_env (after_turns 1 crash_env start)))
   \<and> fst (turn crash_env (after_turns 1 crash_env start)) = Break
   \<and> exit_typed crash_env (after_turns 1 crash_env start)
   \<and> \<not> interrupt_delivered crash_env (after_turns 1 crash_env start)
         (snd (turn crash_env (after_turns 1 crash_env start)))
   \<and> fst (turn interrupted_env start) = Break
   \<and> interrupt_delivered interrupted_env start (snd (turn interrupted_env start))"
proof -
  have a: "fst (turn_body crash_env start) = Inl IndexError" by code_simp
  have b: "IndexError \<noteq> KeyboardInterrupt" by simp
  note t = turn_failure_keeps_session [of crash_env start 1]
  from t a b have c: "turn crash_env start
       = (Continue, log (Unexpected_error IndexError) (snd (turn_body crash_env start)))"
    and d: "session (Suc 1) crash_env start
       = session 1 crash_env (log (Unexpected_error IndexError) (snd (turn_body crash_env start)))"
    by blast+
  have e: "exit_typed crash_env (after_turns 1 crash_env start)" by code_simp
  note t1 = turn_failure_keeps_session [of crash_env "after_turns 1 crash_env start" 1]
  from t1 e have f: "fst (turn crash_env (after_turns 1 crash_env start)) = Break" by blast
  have g: "session 1 crash_env start = None" using c by simp
  have h: "session 2 crash_env start = Some (snd (turn crash_env (after_turns 1 crash_env start)))"
    using c f by (cases "turn crash_env (after_turns 1 crash_env start)")
      (simp add: numeral_2_eq_2)
  have i: "\<not> interrupt_delivered crash_env (after_turns 1 crash_env start)
         (snd (turn crash_env (after_turns 1 crash_env start)))"
    by (simp add: interrupt_delivered_def interrupted_def crash_env_def)
  have j: "interrupt_delivered interrupted_env start (snd (turn interrupted_env start))"
    by (simp add: interrupt_delivered_def interrupted_env_def start_def)
  note t2 = turn_failure_keeps_session [of interrupted_env start 1]
  from t2 j have k: "fst (turn interrupted_env start) = Break" by blast
  from a c g h f e i j k show ?thesis by blast
qed

end
